theory Spec2Isabelle
  imports Complex_Main "HOL-Library.Multiset"
begin

section \<open>The planner store: data model\<close>

text \<open>
  A shallow embedding of \<^verbatim>\<open>src/hooks/useProjectStore.ts\<close> and of the priority
  filters of \<^verbatim>\<open>src/components/Dashboard.tsx\<close> and
  \<^verbatim>\<open>src/components/ProjectsView.tsx\<close>.

  Conventions of the embedding:
  \<^item> a JavaScript \<^verbatim>\<open>number\<close> of a position is a value of a type variable
    \<open>'n\<close>: the moves only add two coordinates (and compare a delta with zero), so they
    ask for \<open>'n::plus\<close> and every statement about them holds for whatever addition
    the numbers have. The rows and depths of the auto-arrange grid are integers; its pixel
    positions, and the stores that sequences of operations run on, take the numbers to
    be reals;
  \<^item> \<^verbatim>\<open>null\<close> and \<^verbatim>\<open>undefined\<close> of an optional field are both
    \<open>None\<close>: the code only tests such fields for truthiness, with \<^verbatim>\<open>??\<close>,
    or with \<^verbatim>\<open>===\<close> against a string, and none of these tells them apart;
  \<^item> the React state of the hook (\<^verbatim>\<open>projects\<close>, \<^verbatim>\<open>tasks\<close>,
    \<^verbatim>\<open>prioritizedTaskIds\<close>) is a record that every operation takes and returns;
    the updater functions passed to the state setters are applied in the order of the
    calls, each to the result of the previous one, and an operation reads the state of its
    closure where the source does. React runs an updater inside the call of the setter
    only when the component has no update pending, and during the next render otherwise;
    the two operations that read, right after the call, a variable their updater
    assigns take that choice as the argument \<open>eager\<close>;
  \<^item> the remote writes (Firestore, Storage) are fire-and-forget and change no local
    state: they are left out, and with them the \<^verbatim>\<open>file\<close> blob of a task or a
    project, which only the uploads read;
  \<^item> \<^verbatim>\<open>Date.now()\<close> and \<^verbatim>\<open>new Date().toISOString()\<close> are arguments of
    the operations that call them.
\<close>

datatype ProjectStatus = InProgress | Completed

record 'n position =
  pos_x :: 'n
  pos_y :: 'n

record 'n delta =
  delta_dx :: 'n
  delta_dy :: 'n

record 'n lineStyle =
  color :: string
  strokeWidth :: 'n

record 'n task =
  task_id :: string
  task_title :: string
  task_content :: string
  task_date :: "string option"
  task_endDate :: "string option"
  task_fileURL :: "string option"
  task_fileName :: "string option"
  task_storagePath :: "string option"
  completed :: "bool option"
  completionDate :: "string option"
  task_position :: "'n position"
  projectId :: "string option"
  parentTaskId :: "string option"
  task_lineStyle :: "'n lineStyle option"

record 'n project =
  project_id :: string
  project_title :: string
  project_content :: "string option"
  status :: ProjectStatus
  project_tasks :: "'n task list"
  project_date :: "string option"
  project_endDate :: "string option"
  project_fileURL :: "string option"
  project_fileName :: "string option"
  project_storagePath :: "string option"
  project_position :: "'n position"
  isCollapsed :: "bool option"

text \<open>
  \<^verbatim>\<open>Partial<Task>\<close>: a key is absent (\<open>None\<close>) or present with a value. For
  an optional field the value may itself be \<^verbatim>\<open>undefined\<close> or \<^verbatim>\<open>null\<close>.
\<close>

record 'n task_patch =
  patch_id :: "string option"
  patch_title :: "string option"
  patch_content :: "string option"
  patch_date :: "string option option"
  patch_endDate :: "string option option"
  patch_fileURL :: "string option option"
  patch_fileName :: "string option option"
  patch_storagePath :: "string option option"
  patch_completed :: "bool option option"
  patch_completionDate :: "string option option"
  patch_position :: "'n position option"
  patch_projectId :: "string option option"
  patch_parentTaskId :: "string option option"
  patch_lineStyle :: "'n lineStyle option option"

text \<open>\<^verbatim>\<open>Partial<Omit<Project, 'position'>>\<close>.\<close>

record 'n project_patch =
  ppatch_id :: "string option"
  ppatch_title :: "string option"
  ppatch_content :: "string option option"
  ppatch_status :: "ProjectStatus option"
  ppatch_tasks :: "'n task list option"
  ppatch_date :: "string option option"
  ppatch_endDate :: "string option option"
  ppatch_fileURL :: "string option option"
  ppatch_fileName :: "string option option"
  ppatch_storagePath :: "string option option"
  ppatch_isCollapsed :: "bool option option"

record 'n store =
  projects :: "'n project list"
  tasks :: "'n task list"
  prioritizedTaskIds :: "string list"

subsection \<open>JavaScript helpers\<close>

text \<open>Truthiness of an optional string: \<^verbatim>\<open>null\<close>, \<^verbatim>\<open>undefined\<close> and the
  empty string are falsy.\<close>

fun truthy_str :: "string option \<Rightarrow> bool" where
  "truthy_str None = False"
| "truthy_str (Some s) = (s \<noteq> [])"

text \<open>Truthiness of an optional boolean.\<close>

fun truthy_bool :: "bool option \<Rightarrow> bool" where
  "truthy_bool None = False"
| "truthy_bool (Some b) = b"

text \<open>\<^verbatim>\<open>Array.from(new Set(ids))\<close>: the first occurrence of each element, in order.\<close>

fun uniq_acc :: "string list \<Rightarrow> string list \<Rightarrow> string list" where
  "uniq_acc seen [] = seen"
| "uniq_acc seen (i # ids) = uniq_acc (if i \<in> set seen then seen else seen @ [i]) ids"

definition array_from_set :: "string list \<Rightarrow> string list" where
  "array_from_set ids = uniq_acc [] ids"

text \<open>The spread of one optional key of a patch over a field.\<close>

definition spread :: "'a \<Rightarrow> 'a option \<Rightarrow> 'a" where
  "spread old new = (case new of None \<Rightarrow> old | Some v \<Rightarrow> v)"

text \<open>\<^verbatim>\<open>{...t, ...taskData}\<close>\<close>

definition merge_task :: "'n task \<Rightarrow> 'n task_patch \<Rightarrow> 'n task" where
  "merge_task t d =
     \<lparr> task_id = spread (task_id t) (patch_id d),
       task_title = spread (task_title t) (patch_title d),
       task_content = spread (task_content t) (patch_content d),
       task_date = spread (task_date t) (patch_date d),
       task_endDate = spread (task_endDate t) (patch_endDate d),
       task_fileURL = spread (task_fileURL t) (patch_fileURL d),
       task_fileName = spread (task_fileName t) (patch_fileName d),
       task_storagePath = spread (task_storagePath t) (patch_storagePath d),
       completed = spread (completed t) (patch_completed d),
       completionDate = spread (completionDate t) (patch_completionDate d),
       task_position = spread (task_position t) (patch_position d),
       projectId = spread (projectId t) (patch_projectId d),
       parentTaskId = spread (parentTaskId t) (patch_parentTaskId d),
       task_lineStyle = spread (task_lineStyle t) (patch_lineStyle d) \<rparr>"

text \<open>\<^verbatim>\<open>{...p, ...projectData}\<close>\<close>

definition merge_project :: "'n project \<Rightarrow> 'n project_patch \<Rightarrow> 'n project" where
  "merge_project p d =
     \<lparr> project_id = spread (project_id p) (ppatch_id d),
       project_title = spread (project_title p) (ppatch_title d),
       project_content = spread (project_content p) (ppatch_content d),
       status = spread (status p) (ppatch_status d),
       project_tasks = spread (project_tasks p) (ppatch_tasks d),
       project_date = spread (project_date p) (ppatch_date d),
       project_endDate = spread (project_endDate p) (ppatch_endDate d),
       project_fileURL = spread (project_fileURL p) (ppatch_fileURL d),
       project_fileName = spread (project_fileName p) (ppatch_fileName d),
       project_storagePath = spread (project_storagePath p) (ppatch_storagePath d),
       project_position = project_position p,
       isCollapsed = spread (isCollapsed p) (ppatch_isCollapsed d) \<rparr>"

text \<open>\<^verbatim>\<open>position + delta\<close>, coordinate by coordinate.\<close>

definition translate :: "'n::plus position \<Rightarrow> 'n delta \<Rightarrow> 'n position" where
  "translate p d = \<lparr> pos_x = pos_x p + delta_dx d, pos_y = pos_y p + delta_dy d \<rparr>"

section \<open>Mutation operations\<close>

subsection \<open>updateTask\<close>

definition updateTask :: "string \<Rightarrow> 'n task_patch \<Rightarrow> 'n store \<Rightarrow> 'n store" where
  "updateTask taskId taskData s =
     \<lparr> projects =
         map (\<lambda>p. p\<lparr>project_tasks :=
                map (\<lambda>t. if task_id t = taskId then merge_task t taskData else t)
                  (project_tasks p)\<rparr>) (projects s),
       tasks = map (\<lambda>t. if task_id t = taskId then merge_task t taskData else t) (tasks s),
       prioritizedTaskIds =
         (if truthy_bool (spread None (patch_completed taskData))
          then filter (\<lambda>i. i \<noteq> taskId) (prioritizedTaskIds s)
          else prioritizedTaskIds s) \<rparr>"

subsection \<open>Descendant collection\<close>

text \<open>
  \<^verbatim>\<open>getAllDescendantTaskIds\<close>, defined anew in \<^verbatim>\<open>moveProjectGroup\<close>,
  \<^verbatim>\<open>moveTaskSubtree\<close>, \<^verbatim>\<open>finishProject\<close>, \<^verbatim>\<open>reactivateProject\<close> and
  \<^verbatim>\<open>deleteProject\<close> with the same body. The loop state is the queue, the set
  \<^verbatim>\<open>visited\<close> and the set \<^verbatim>\<open>allDescendants\<close>; a JavaScript \<^verbatim>\<open>Set\<close> is
  the list of its elements in insertion order, which is the order
  \<^verbatim>\<open>Array.from\<close> reads it in.
\<close>

function getAllDescendantLoop ::
  "'n task list \<Rightarrow> string list \<Rightarrow> string list \<Rightarrow> string list \<Rightarrow> string list" where
  "getAllDescendantLoop allTasks [] visited allDescendants = allDescendants"
| "getAllDescendantLoop allTasks (currentTaskId # queue) visited allDescendants =
     (if currentTaskId \<in> set visited
      then getAllDescendantLoop allTasks queue visited allDescendants
      else getAllDescendantLoop allTasks
             (queue @ filter (\<lambda>c. c \<notin> set (visited @ [currentTaskId]))
                        (map task_id (filter (\<lambda>t. parentTaskId t = Some currentTaskId) allTasks)))
             (visited @ [currentTaskId])
             (allDescendants @ [currentTaskId]))"
  by pat_completeness auto

definition bfs_unvisited :: "'n task list \<Rightarrow> string list \<Rightarrow> string list \<Rightarrow> nat" where
  "bfs_unvisited allTasks queue visited =
     card ((set queue \<union> task_id ` set allTasks) - set visited)"

lemma bfs_unvisited_skip:
  "bfs_unvisited allTasks queue visited \<le> bfs_unvisited allTasks (c # queue) visited"
  unfolding bfs_unvisited_def by (rule card_mono) auto

lemma bfs_unvisited_visit:
  assumes "c \<notin> set visited"
  shows "bfs_unvisited allTasks
           (queue @ filter (\<lambda>k. k \<notin> set (visited @ [c]))
                      (map task_id (filter (\<lambda>t. parentTaskId t = Some c) allTasks)))
           (visited @ [c])
         < bfs_unvisited allTasks (c # queue) visited"
  unfolding bfs_unvisited_def
proof (rule psubset_card_mono)
  show "finite ((set (c # queue) \<union> task_id ` set allTasks) - set visited)" by simp
  show "(set (queue @ filter (\<lambda>k. k \<notin> set (visited @ [c]))
                      (map task_id (filter (\<lambda>t. parentTaskId t = Some c) allTasks)))
           \<union> task_id ` set allTasks) - set (visited @ [c])
        \<subset> (set (c # queue) \<union> task_id ` set allTasks) - set visited"
    using assms by auto
qed

termination getAllDescendantLoop
proof (relation "measures [\<lambda>(ts, q, v, a). bfs_unvisited ts q v, \<lambda>(ts, q, v, a). length q]")
  show "wf (measures [\<lambda>(ts, q, v, a). bfs_unvisited ts q v, \<lambda>(ts, q, v, a). length q])"
    by simp
next
  fix allTasks :: "'n task list" and currentTaskId :: string
    and queue visited allDescendants :: "string list"
  assume "currentTaskId \<in> set visited"
  then show "((allTasks, queue, visited, allDescendants),
              (allTasks, currentTaskId # queue, visited, allDescendants))
             \<in> measures [\<lambda>(ts, q, v, a). bfs_unvisited ts q v, \<lambda>(ts, q, v, a). length q]"
    using bfs_unvisited_skip [of allTasks queue visited currentTaskId]
    by (simp add: le_less)
next
  fix allTasks :: "'n task list" and currentTaskId :: string
    and queue visited allDescendants :: "string list"
  assume "currentTaskId \<notin> set visited"
  then show "((allTasks,
               queue @ filter (\<lambda>c. c \<notin> set (visited @ [currentTaskId]))
                         (map task_id (filter (\<lambda>t. parentTaskId t = Some currentTaskId) allTasks)),
               visited @ [currentTaskId], allDescendants @ [currentTaskId]),
              (allTasks, currentTaskId # queue, visited, allDescendants))
             \<in> measures [\<lambda>(ts, q, v, a). bfs_unvisited ts q v, \<lambda>(ts, q, v, a). length q]"
    using bfs_unvisited_visit [of currentTaskId visited allTasks queue]
    by simp
qed

definition getAllDescendantTaskIds :: "string list \<Rightarrow> 'n task list \<Rightarrow> string list" where
  "getAllDescendantTaskIds startTaskIds allTasks =
     getAllDescendantLoop allTasks startTaskIds [] []"

subsection \<open>Projects\<close>

text \<open>\<^verbatim>\<open>addProject\<close>; \<open>pos\<close> is \<^verbatim>\<open>position || { x: 200, y: 200 }\<close>, resolved by
  the caller of the model, and \<open>newId\<close> is \<^verbatim>\<open>`proj-${Date.now()}`\<close>.\<close>

definition addProject :: "'n project \<Rightarrow> string \<Rightarrow> 'n position \<Rightarrow> 'n store \<Rightarrow> 'n store" where
  "addProject projectData newId pos s =
     s\<lparr>projects :=
         projectData\<lparr>project_id := newId, status := InProgress, project_tasks := [],
                     project_position := pos, isCollapsed := Some False\<rparr> # projects s\<rparr>"

definition updateProject :: "string \<Rightarrow> 'n project_patch \<Rightarrow> 'n store \<Rightarrow> 'n store" where
  "updateProject pid projectData s =
     s\<lparr>projects :=
         map (\<lambda>p. if project_id p = pid then merge_project p projectData else p) (projects s)\<rparr>"

definition moveProjectGroup :: "string \<Rightarrow> 'n::plus delta \<Rightarrow> 'n store \<Rightarrow> 'n store" where
  "moveProjectGroup pid d s =
     (case find (\<lambda>p. project_id p = pid) (projects s) of
        None \<Rightarrow> s
      | Some projectToMove \<Rightarrow>
          let directTaskIds =
                array_from_set
                  (map task_id (project_tasks projectToMove) @
                   map task_id (filter (\<lambda>t. projectId t = Some pid) (tasks s)));
              allTaskIdsToMove = getAllDescendantTaskIds directTaskIds (tasks s);
              updatedTasks =
                map (\<lambda>t. if task_id t \<in> set allTaskIdsToMove
                         then t\<lparr>task_position := translate (task_position t) d\<rparr>
                         else t) (tasks s);
              updatedProjects =
                map (\<lambda>p. if project_id p = pid
                         then p\<lparr>project_position := translate (project_position p) d,
                                project_tasks := filter (\<lambda>t. projectId t = Some pid) updatedTasks\<rparr>
                         else p) (projects s)
          in s\<lparr>projects := updatedProjects, tasks := updatedTasks\<rparr>)"

text \<open>\<^verbatim>\<open>newPositions\<close> of \<^verbatim>\<open>moveTaskSubtree\<close>: a \<^verbatim>\<open>Map\<close> in which a later
  \<^verbatim>\<open>set\<close> of the same key replaces the earlier one.\<close>

definition newPositionsOf :: "string list \<Rightarrow> 'n::plus delta \<Rightarrow> 'n task list \<Rightarrow> string \<rightharpoonup> 'n position" where
  "newPositionsOf idsToMove d ts =
     map_of (rev (map (\<lambda>t. (task_id t, translate (task_position t) d))
                    (filter (\<lambda>t. task_id t \<in> set idsToMove) ts)))"

text \<open>
  \<^verbatim>\<open>moveTaskSubtree\<close>. The cached copies read \<^verbatim>\<open>newPositions.get(t.id)!\<close>; every
  identifier of \<^verbatim>\<open>idsToMove\<close> is the root, which was found in the task list, or the
  identifier of a task of the list, so the lookup is never \<^verbatim>\<open>undefined\<close>; the model
  keeps the position in that unreachable case.
\<close>

definition moveTaskSubtree :: "string \<Rightarrow> 'n::{plus,zero} delta \<Rightarrow> 'n store \<Rightarrow> 'n store" where
  "moveTaskSubtree rootTaskId d s =
     (if delta_dx d = 0 \<and> delta_dy d = 0 then s
      else case find (\<lambda>t. task_id t = rootTaskId) (tasks s) of
        None \<Rightarrow> s
      | Some rootTask \<Rightarrow>
          let idsToMove = getAllDescendantTaskIds [rootTaskId] (tasks s) in
          if idsToMove = [] then s
          else
            let newPositions = newPositionsOf idsToMove d (tasks s);
                updatedTasks =
                  map (\<lambda>t. if task_id t \<in> set idsToMove
                           then t\<lparr>task_position := translate (task_position t) d\<rparr>
                           else t) (tasks s)
            in s\<lparr>tasks := updatedTasks,
                 projects :=
                   map (\<lambda>p. p\<lparr>project_tasks :=
                          map (\<lambda>t. if task_id t \<in> set idsToMove
                                   then (case newPositions (task_id t) of
                                           Some pos \<Rightarrow> t\<lparr>task_position := pos\<rparr>
                                         | None \<Rightarrow> t)
                                   else t) (project_tasks p)\<rparr>) (projects s)\<rparr>)"

definition finishProject :: "string \<Rightarrow> 'n store \<Rightarrow> 'n store" where
  "finishProject pid s =
     (case find (\<lambda>p. project_id p = pid) (projects s) of
        None \<Rightarrow> s
      | Some projectToFinish \<Rightarrow>
          let directTaskIds = map task_id (project_tasks projectToFinish);
              allTaskIdsInProjectTree = getAllDescendantTaskIds directTaskIds (tasks s)
          in s\<lparr>prioritizedTaskIds :=
                 filter (\<lambda>i. i \<notin> set allTaskIdsInProjectTree) (prioritizedTaskIds s),
               projects :=
                 map (\<lambda>p. if project_id p = pid
                          then p\<lparr>status := Completed, isCollapsed := Some True\<rparr>
                          else p) (projects s)\<rparr>)"

text \<open>\<^verbatim>\<open>setPrioritizedTasks\<close>\<close>

definition setPrioritizedTasks :: "string list \<Rightarrow> 'n store \<Rightarrow> 'n store" where
  "setPrioritizedTasks ids s = s\<lparr>prioritizedTaskIds := array_from_set ids\<rparr>"

text \<open>\<^verbatim>\<open>activeIds\<close> of \<^verbatim>\<open>reactivateProject\<close>: the descendants that are not
  completed, an identifier without a task counting as active.\<close>

definition activeIdsOf :: "string \<Rightarrow> 'n task list \<Rightarrow> string list" where
  "activeIdsOf pid ts =
     filter (\<lambda>i. case find (\<lambda>x. task_id x = i) ts of
                    Some t \<Rightarrow> \<not> truthy_bool (completed t)
                  | None \<Rightarrow> True)
       (getAllDescendantTaskIds
          (map task_id (filter (\<lambda>t. projectId t = Some pid) ts)) ts)"

definition reactivateProject :: "string \<Rightarrow> 'n store \<Rightarrow> 'n store" where
  "reactivateProject pid s =
     (let s1 = s\<lparr>projects :=
                   map (\<lambda>p. if project_id p = pid
                            then p\<lparr>status := InProgress, isCollapsed := Some False\<rparr>
                            else p) (projects s)\<rparr>;
          activeIds = activeIdsOf pid (tasks s)
      in if activeIds \<noteq> []
         then setPrioritizedTasks (prioritizedTaskIds s @ activeIds) s1
         else s1)"

definition toggleProjectCollapse :: "string \<Rightarrow> 'n store \<Rightarrow> 'n store" where
  "toggleProjectCollapse pid s =
     s\<lparr>projects :=
         map (\<lambda>p. if project_id p = pid
                  then p\<lparr>isCollapsed := Some (\<not> truthy_bool (isCollapsed p))\<rparr>
                  else p) (projects s)\<rparr>"

definition deleteProject :: "string \<Rightarrow> 'n store \<Rightarrow> 'n store" where
  "deleteProject pid s =
     (let directTaskIds = map task_id (filter (\<lambda>t. projectId t = Some pid) (tasks s));
          allTaskIdsToDelete = getAllDescendantTaskIds directTaskIds (tasks s)
      in \<lparr> projects = filter (\<lambda>p. project_id p \<noteq> pid) (projects s),
           tasks = filter (\<lambda>t. task_id t \<notin> set allTaskIdsToDelete) (tasks s),
           prioritizedTaskIds =
             filter (\<lambda>i. i \<notin> set allTaskIdsToDelete) (prioritizedTaskIds s) \<rparr>)"

subsection \<open>Tasks\<close>

text \<open>\<^verbatim>\<open>addTask\<close>; \<open>newId\<close> is \<^verbatim>\<open>`task-${Date.now()}`\<close>. The fields
  \<^verbatim>\<open>id\<close> and \<^verbatim>\<open>completed\<close> of \<open>taskData\<close> are not part of the source's
  argument type and are overwritten.\<close>

definition addTask :: "'n task \<Rightarrow> string \<Rightarrow> 'n store \<Rightarrow> 'n store" where
  "addTask taskData newId s =
     (let newTask = taskData\<lparr>task_id := newId, completed := Some False, parentTaskId := None\<rparr>
      in \<lparr> projects =
             (if truthy_str (projectId newTask)
              then map (\<lambda>p. if Some (project_id p) = projectId newTask
                            then p\<lparr>project_tasks := project_tasks p @ [newTask]\<rparr>
                            else p) (projects s)
              else projects s),
           tasks = tasks s @ [newTask],
           prioritizedTaskIds =
             (if newId \<notin> set (prioritizedTaskIds s)
              then prioritizedTaskIds s @ [newId]
              else prioritizedTaskIds s) \<rparr>)"

definition updateTaskPosition :: "string \<Rightarrow> 'n position \<Rightarrow> 'n store \<Rightarrow> 'n store" where
  "updateTaskPosition tid pos s =
     s\<lparr>tasks := map (\<lambda>t. if task_id t = tid then t\<lparr>task_position := pos\<rparr> else t) (tasks s),
       projects :=
         map (\<lambda>p. p\<lparr>project_tasks :=
                map (\<lambda>t. if task_id t = tid then t\<lparr>task_position := pos\<rparr> else t)
                  (project_tasks p)\<rparr>) (projects s)\<rparr>"

definition deleteTask :: "string \<Rightarrow> 'n store \<Rightarrow> 'n store" where
  "deleteTask tid s =
     (let taskToDelete = find (\<lambda>t. task_id t = tid) (tasks s)
      in \<lparr> projects =
             (case taskToDelete of
                None \<Rightarrow> projects s
              | Some td \<Rightarrow>
                  if truthy_str (projectId td)
                  then map (\<lambda>p. if Some (project_id p) = projectId td
                                then p\<lparr>project_tasks :=
                                       filter (\<lambda>t. task_id t \<noteq> tid) (project_tasks p)\<rparr>
                                else p) (projects s)
                  else projects s),
           tasks = filter (\<lambda>t. task_id t \<noteq> tid) (tasks s),
           prioritizedTaskIds = filter (\<lambda>i. i \<noteq> tid) (prioritizedTaskIds s) \<rparr>)"

text \<open>\<^verbatim>\<open>updateLineStyle\<close> calls \<^verbatim>\<open>updateTask(taskId, { lineStyle })\<close>.\<close>

definition lineStylePatch :: "'n lineStyle option \<Rightarrow> 'n task_patch" where
  "lineStylePatch ls =
     \<lparr> patch_id = None, patch_title = None, patch_content = None, patch_date = None,
       patch_endDate = None, patch_fileURL = None, patch_fileName = None,
       patch_storagePath = None, patch_completed = None, patch_completionDate = None,
       patch_position = None, patch_projectId = None, patch_parentTaskId = None,
       patch_lineStyle = Some ls \<rparr>"

definition updateLineStyle :: "string \<Rightarrow> 'n lineStyle option \<Rightarrow> 'n store \<Rightarrow> 'n store" where
  "updateLineStyle tid ls s = updateTask tid (lineStylePatch ls) s"

subsection \<open>Linking and unlinking\<close>

text \<open>\<^verbatim>\<open>linkTaskToProject\<close>. \<^verbatim>\<open>taskToLink\<close> is assigned inside the updater of
  \<^verbatim>\<open>setTasks\<close>, once for every task with the identifier, so it ends as the copy of
  the last one when the updater has run (\<open>eager\<close>) by the time of
  \<^verbatim>\<open>if (taskToLink)\<close>, and is still undefined there otherwise: then no project
  cache is appended to. The task list is updated either way.\<close>

definition linkTaskToProject :: "bool \<Rightarrow> string \<Rightarrow> string \<Rightarrow> 'n store \<Rightarrow> 'n store" where
  "linkTaskToProject eager tid pid s =
     (let matching = filter (\<lambda>t. task_id t = tid) (tasks s);
          newTasks = map (\<lambda>t. if task_id t = tid
                              then t\<lparr>projectId := Some pid, parentTaskId := None\<rparr>
                              else t) (tasks s)
      in if \<not> eager \<or> matching = [] then s\<lparr>tasks := newTasks\<rparr>
         else
           let finalTask = (last matching)\<lparr>projectId := Some pid, parentTaskId := None\<rparr>
           in s\<lparr>tasks := newTasks,
                projects :=
                  map (\<lambda>p. if project_id p = pid
                           then p\<lparr>project_tasks := project_tasks p @ [finalTask]\<rparr>
                           else p) (projects s)\<rparr>)"

text \<open>\<^verbatim>\<open>effectiveCompletionDate\<close> of \<^verbatim>\<open>linkTaskToTask\<close>:
  \<^verbatim>\<open>parentBefore?.completionDate ?? completionTimestamp\<close>.\<close>

definition effectiveCompletionDate :: "'n task list \<Rightarrow> string \<Rightarrow> string \<Rightarrow> string" where
  "effectiveCompletionDate ts parentId completionTimestamp =
     (case find (\<lambda>t. task_id t = parentId) ts of
        None \<Rightarrow> completionTimestamp
      | Some parentBefore \<Rightarrow>
          (case completionDate parentBefore of
             None \<Rightarrow> completionTimestamp
           | Some d \<Rightarrow> d))"

definition linkTaskToTask :: "string \<Rightarrow> string \<Rightarrow> string \<Rightarrow> 'n store \<Rightarrow> 'n store" where
  "linkTaskToTask childTaskId parentId completionTimestamp s =
     (let eff = effectiveCompletionDate (tasks s) parentId completionTimestamp;
          childTaskProject =
            find (\<lambda>p. \<exists>t \<in> set (project_tasks p). task_id t = childTaskId) (projects s)
      in \<lparr> projects =
             map (\<lambda>p.
                   let newTasks =
                         map (\<lambda>t. if task_id t = parentId
                                  then t\<lparr>completed := Some True, completionDate := Some eff\<rparr>
                                  else t) (project_tasks p)
                   in case childTaskProject of
                        None \<Rightarrow> p\<lparr>project_tasks := newTasks\<rparr>
                      | Some cp \<Rightarrow>
                          if project_id p = project_id cp
                          then p\<lparr>project_tasks :=
                                 filter (\<lambda>t. task_id t \<noteq> childTaskId) newTasks\<rparr>
                          else p\<lparr>project_tasks := newTasks\<rparr>) (projects s),
           tasks =
             map (\<lambda>t. if task_id t = childTaskId
                      then t\<lparr>parentTaskId := Some parentId, projectId := None\<rparr>
                      else if task_id t = parentId
                      then t\<lparr>completed := Some True, completionDate := Some eff\<rparr>
                      else t) (tasks s),
           prioritizedTaskIds =
             filter (\<lambda>i. i \<noteq> parentId) (prioritizedTaskIds s) @ [childTaskId] \<rparr>)"

text \<open>\<^verbatim>\<open>unlinkTask\<close>. \<^verbatim>\<open>taskToUnlink\<close> is assigned inside the updater of
  \<^verbatim>\<open>setProjects\<close>, once for every project with the identifier, so when the updater
  has run (\<open>eager\<close>) by the time of \<^verbatim>\<open>if (taskToUnlink)\<close> it is what the cached
  list of the last one holds, and it is still undefined there otherwise. The task list is
  only touched when it is defined; the cached lists are filtered either way.\<close>

definition taskToUnlink :: "bool \<Rightarrow> string \<Rightarrow> string \<Rightarrow> 'n project list \<Rightarrow> 'n task option" where
  "taskToUnlink eager pid tid ps =
     (let matching = filter (\<lambda>p. project_id p = pid) ps
      in if \<not> eager \<or> matching = [] then None
         else find (\<lambda>t. task_id t = tid) (project_tasks (last matching)))"

definition unlinkTask :: "bool \<Rightarrow> string \<Rightarrow> string \<Rightarrow> 'n store \<Rightarrow> 'n store" where
  "unlinkTask eager pid tid s =
     s\<lparr>projects :=
         map (\<lambda>p. if project_id p = pid
                  then p\<lparr>project_tasks := filter (\<lambda>t. task_id t \<noteq> tid) (project_tasks p)\<rparr>
                  else p) (projects s),
       tasks :=
         (case taskToUnlink eager pid tid (projects s) of
            None \<Rightarrow> tasks s
          | Some found \<Rightarrow>
              map (\<lambda>t. if task_id t = tid then t\<lparr>projectId := None\<rparr> else t) (tasks s))\<rparr>"

text \<open>
  The \<^verbatim>\<open>while (parentId)\<close> loop of \<^verbatim>\<open>unlinkTaskFromParent\<close>. It keeps no
  visited set, so it need not return: \<open>None\<close> is the run that never leaves the loop,
  \<open>Some a\<close> the run that ends with \<^verbatim>\<open>ancestorProjectId = a\<close>.
\<close>

partial_function (option) ancestorProjectSearch ::
  "'n task list \<Rightarrow> string option \<Rightarrow> string option option" where
  "ancestorProjectSearch ts parentId =
     (if truthy_str parentId
      then (case find (\<lambda>t. Some (task_id t) = parentId) ts of
              None \<Rightarrow> Some None
            | Some parentTask \<Rightarrow>
                if truthy_str (projectId parentTask) then Some (projectId parentTask)
                else ancestorProjectSearch ts (parentTaskId parentTask))
      else Some None)"

definition unlinkTaskFromParent :: "string \<Rightarrow> 'n store \<Rightarrow> 'n store option" where
  "unlinkTaskFromParent childTaskId s =
     (case find (\<lambda>t. task_id t = childTaskId) (tasks s) of
        None \<Rightarrow> Some s
      | Some childTask \<Rightarrow>
          if \<not> truthy_str (parentTaskId childTask) then Some s
          else
            (case ancestorProjectSearch (tasks s) (parentTaskId childTask) of
               None \<Rightarrow> None
             | Some ancestorProjectId \<Rightarrow>
                 let updatedChild =
                       childTask\<lparr>parentTaskId := None, projectId := ancestorProjectId\<rparr>
                 in Some
                      (s\<lparr>tasks :=
                           map (\<lambda>t. if task_id t = childTaskId then updatedChild else t) (tasks s),
                         projects :=
                           map (\<lambda>p.
                                 let filtered =
                                       filter (\<lambda>t. task_id t \<noteq> childTaskId) (project_tasks p)
                                 in if truthy_str ancestorProjectId
                                       \<and> Some (project_id p) = ancestorProjectId
                                    then p\<lparr>project_tasks := filtered @ [updatedChild]\<rparr>
                                    else p\<lparr>project_tasks := filtered\<rparr>) (projects s)\<rparr>)))"

section \<open>Priority views\<close>

text \<open>\<^verbatim>\<open>tasksById\<close> and \<^verbatim>\<open>projectsById\<close> as entries: built by a
  \<^verbatim>\<open>reduce\<close> into an object literal (Dashboard, the priority view) or by
  \<^verbatim>\<open>new Map\<close> (\<^verbatim>\<open>prioritizedDisplayOrder\<close>); either way the last element with a
  key wins.\<close>

definition tasksById :: "'n task list \<Rightarrow> string \<rightharpoonup> 'n task" where
  "tasksById ts = map_of (rev (map (\<lambda>t. (task_id t, t)) ts))"

definition projectsById :: "'n project list \<Rightarrow> string \<rightharpoonup> 'n project" where
  "projectsById ps = map_of (rev (map (\<lambda>p. (project_id p, p)) ps))"

text \<open>
  What \<^verbatim>\<open>obj[key]\<close> answers on an object built from an object literal: the entry
  stored under the key; or, for a key with no entry, a truthy value found on the prototype
  chain (\<open>Foreign\<close>: for an object literal the members of \<^verbatim>\<open>Object.prototype\<close>, such
  as \<^verbatim>\<open>constructor\<close> and \<^verbatim>\<open>toString\<close>); or nothing truthy (\<open>Absent\<close>). Which
  keys are answered from the prototype chain belongs to the host and to the object (an
  element with the identifier \<^verbatim>\<open>__proto__\<close> becomes the prototype of the object the
  \<^verbatim>\<open>reduce\<close> builds, and is what that key then answers): it is the parameter
  \<open>inherited\<close>, one for the object of the tasks (\<open>inheritedT\<close>) and one for the
  object of the projects (\<open>inheritedP\<close>). A value found on the chain is no task and no
  project and has none of their fields. A \<^verbatim>\<open>Map\<close> answers its entries only.
\<close>

datatype 'a lookup = Own 'a | Foreign | Absent

definition objectLookup :: "(string \<Rightarrow> bool) \<Rightarrow> (string \<rightharpoonup> 'a) \<Rightarrow> string \<Rightarrow> 'a lookup" where
  "objectLookup inherited m k =
     (case m k of Some v \<Rightarrow> Own v | None \<Rightarrow> if inherited k then Foreign else Absent)"

text \<open>The own members of \<^verbatim>\<open>Object.prototype\<close> in the engines in use; every one of
  them holds a function or an object, which is truthy.\<close>

definition objectPrototypeKeys :: "string list" where
  "objectPrototypeKeys =
     [''constructor'', ''hasOwnProperty'', ''isPrototypeOf'', ''propertyIsEnumerable'',
      ''toLocaleString'', ''toString'', ''valueOf'', ''__proto__'', ''__defineGetter__'',
      ''__defineSetter__'', ''__lookupGetter__'', ''__lookupSetter__'']"

definition objectPrototypeKey :: "string \<Rightarrow> bool" where
  "objectPrototypeKey k = (k \<in> set objectPrototypeKeys)"

text \<open>The loop of \<^verbatim>\<open>findRoot\<close> in \<^verbatim>\<open>prioritizedDisplayOrder\<close>
  (\<^verbatim>\<open>ProjectsView.tsx\<close>), over two \<^verbatim>\<open>Map\<close>s.\<close>

function findRootLoop ::
  "'n task list \<Rightarrow> 'n project list \<Rightarrow> string list \<Rightarrow> string option \<Rightarrow> 'n project option" where
  "findRootLoop ts ps visited currentId =
     (case currentId of
        None \<Rightarrow> None
      | Some cur \<Rightarrow>
          if cur = [] \<or> cur \<in> set visited then None
          else (case tasksById ts cur of
                  None \<Rightarrow> None
                | Some t \<Rightarrow>
                    if truthy_str (projectId t)
                    then (case projectId t of None \<Rightarrow> None | Some p \<Rightarrow> projectsById ps p)
                    else findRootLoop ts ps (visited @ [cur])
                           (if truthy_str (parentTaskId t) then parentTaskId t else None)))"
  by pat_completeness auto

lemma tasksById_Some_id: "tasksById ts k = Some t \<Longrightarrow> k \<in> task_id ` set ts"
  unfolding tasksById_def by (auto dest!: map_of_SomeD)

lemma unseen_card_less:
  assumes "cur \<notin> set visited" and "tasksById ts cur = Some t"
  shows "card (task_id ` set ts - set (visited @ [cur])) < card (task_id ` set ts - set visited)"
proof -
  have "cur \<in> task_id ` set ts - set visited"
    using assms tasksById_Some_id [of ts cur t] by simp
  then have "task_id ` set ts - set (visited @ [cur]) \<subset> task_id ` set ts - set visited"
    by auto
  then show ?thesis
    by (intro psubset_card_mono) simp_all
qed

termination findRootLoop
proof (relation "measure (\<lambda>(ts, ps, visited, c). card (task_id ` set ts - set visited))")
  show "wf (measure (\<lambda>(ts, ps, visited, c). card (task_id ` set ts - set visited)))"
    by simp
next
  fix ts :: "'n task list" and ps :: "'n project list" and visited :: "string list"
    and currentId :: "string option" and cur :: string and t :: "'n task"
  assume "\<not> (cur = [] \<or> cur \<in> set visited)" and "tasksById ts cur = Some t"
  then have "card (task_id ` set ts - set (visited @ [cur])) < card (task_id ` set ts - set visited)"
    using unseen_card_less [of cur visited ts t] by simp
  then show "((ts, ps, visited @ [cur],
               if truthy_str (parentTaskId t) then parentTaskId t else None),
              (ts, ps, visited, currentId))
             \<in> measure (\<lambda>(ts, ps, visited, c). card (task_id ` set ts - set visited))"
    by simp
qed

definition findRoot :: "'n task list \<Rightarrow> 'n project list \<Rightarrow> string \<Rightarrow> 'n project option" where
  "findRoot ts ps taskId = findRootLoop ts ps [] (Some taskId)"

text \<open>
  The loop of \<^verbatim>\<open>findRootProject\<close> (\<^verbatim>\<open>Dashboard.tsx\<close>) and of
  \<^verbatim>\<open>findRootProjectForTask\<close> (the priority view of \<^verbatim>\<open>ProjectsView.tsx\<close>), over
  two object literals; the two have the same body. The result \<open>Absent\<close> is
  \<^verbatim>\<open>null\<close>. A \<open>Foreign\<close> answer for the task passes \<^verbatim>\<open>if (!task)\<close>, has no
  \<^verbatim>\<open>projectId\<close> and no \<^verbatim>\<open>parentTaskId\<close>, so the loop ends and \<^verbatim>\<open>null\<close> is
  returned; a \<open>Foreign\<close> answer for the project is truthy and is returned as it is.
\<close>

function findRootProjectLoop ::
  "(string \<Rightarrow> bool) \<Rightarrow> (string \<Rightarrow> bool) \<Rightarrow> 'n task list \<Rightarrow> 'n project list \<Rightarrow> string list
     \<Rightarrow> string option \<Rightarrow> 'n project lookup" where
  "findRootProjectLoop inheritedT inheritedP ts ps visited currentId =
     (case currentId of
        None \<Rightarrow> Absent
      | Some cur \<Rightarrow>
          if cur = [] \<or> cur \<in> set visited then Absent
          else (case objectLookup inheritedT (tasksById ts) cur of
                  Absent \<Rightarrow> Absent
                | Foreign \<Rightarrow> Absent
                | Own t \<Rightarrow>
                    if truthy_str (projectId t)
                    then (case projectId t of
                            None \<Rightarrow> Absent
                          | Some p \<Rightarrow> objectLookup inheritedP (projectsById ps) p)
                    else findRootProjectLoop inheritedT inheritedP ts ps (visited @ [cur])
                           (if truthy_str (parentTaskId t) then parentTaskId t else None)))"
  by pat_completeness auto

lemma objectLookup_Own: "objectLookup inherited m k = Own v \<longleftrightarrow> m k = Some v"
  by (simp add: objectLookup_def split: option.splits)

termination findRootProjectLoop
proof (relation
    "measure (\<lambda>(inhT, inhP, ts, ps, visited, c). card (task_id ` set ts - set visited))")
  show "wf (measure (\<lambda>(inhT, inhP, ts, ps, visited, c).
              card (task_id ` set ts - set visited)))"
    by simp
next
  fix inheritedT :: "string \<Rightarrow> bool" and inheritedP :: "string \<Rightarrow> bool" and ts :: "'n task list" and ps :: "'n project list"
    and visited :: "string list" and currentId :: "string option" and cur :: string
    and t :: "'n task"
  assume "\<not> (cur = [] \<or> cur \<in> set visited)"
    and "objectLookup inheritedT (tasksById ts) cur = Own t"
  then have "card (task_id ` set ts - set (visited @ [cur])) < card (task_id ` set ts - set visited)"
    using unseen_card_less [of cur visited ts t] by (simp add: objectLookup_Own)
  then show "((inheritedT, inheritedP, ts, ps, visited @ [cur],
               if truthy_str (parentTaskId t) then parentTaskId t else None),
              (inheritedT, inheritedP, ts, ps, visited, currentId))
             \<in> measure (\<lambda>(inhT, inhP, ts, ps, visited, c).
                   card (task_id ` set ts - set visited))"
    by simp
qed

definition findRootProject ::
  "(string \<Rightarrow> bool) \<Rightarrow> (string \<Rightarrow> bool) \<Rightarrow> 'n task list \<Rightarrow> 'n project list \<Rightarrow> string
     \<Rightarrow> 'n project lookup" where
  "findRootProject inheritedT inheritedP ts ps taskId =
     findRootProjectLoop inheritedT inheritedP ts ps [] (Some taskId)"

definition findRootProjectForTask ::
  "(string \<Rightarrow> bool) \<Rightarrow> (string \<Rightarrow> bool) \<Rightarrow> 'n task list \<Rightarrow> 'n project list \<Rightarrow> string
     \<Rightarrow> 'n project lookup" where
  "findRootProjectForTask inheritedT inheritedP ts ps taskId =
     findRootProjectLoop inheritedT inheritedP ts ps [] (Some taskId)"

text \<open>\<^verbatim>\<open>filteredPrioritized\<close> of \<^verbatim>\<open>Dashboard.tsx\<close>:
  \<^verbatim>\<open>if (!t || t.completed) return false\<close>, then
  \<^verbatim>\<open>root?.status === ProjectStatus.InProgress\<close>. A \<open>Foreign\<close> answer for the task is
  truthy and has no \<^verbatim>\<open>completed\<close>; a \<open>Foreign\<close> root has no \<^verbatim>\<open>status\<close>.\<close>

definition filteredPrioritized ::
  "(string \<Rightarrow> bool) \<Rightarrow> (string \<Rightarrow> bool) \<Rightarrow> 'n store \<Rightarrow> string list" where
  "filteredPrioritized inheritedT inheritedP s =
     filter (\<lambda>i. if (case objectLookup inheritedT (tasksById (tasks s)) i of
                       Absent \<Rightarrow> True
                     | Foreign \<Rightarrow> False
                     | Own t \<Rightarrow> truthy_bool (completed t))
                 then False
                 else (case findRootProject inheritedT inheritedP (tasks s) (projects s) i of
                         Own rootProject \<Rightarrow> status rootProject = InProgress
                       | Foreign \<Rightarrow> False
                       | Absent \<Rightarrow> False))
       (prioritizedTaskIds s)"

text \<open>\<^verbatim>\<open>prioritizedDisplayOrder\<close> of \<^verbatim>\<open>ProjectsView.tsx\<close>:
  \<^verbatim>\<open>!root || root?.status === ProjectStatus.InProgress\<close>.\<close>

definition prioritizedDisplayOrder :: "'n store \<Rightarrow> string list" where
  "prioritizedDisplayOrder s =
     filter (\<lambda>i. case tasksById (tasks s) i of
                    None \<Rightarrow> False
                  | Some t \<Rightarrow>
                      if truthy_bool (completed t) then False
                      else (case findRoot (tasks s) (projects s) i of
                              None \<Rightarrow> True
                            | Some rootProject \<Rightarrow> status rootProject = InProgress))
       (array_from_set (prioritizedTaskIds s))"

text \<open>\<^verbatim>\<open>tasksForPrioritization\<close> and \<^verbatim>\<open>sortedTasks\<close> of the priority view in
  \<^verbatim>\<open>ProjectsView.tsx\<close>:
  \<^verbatim>\<open>!rootProject || rootProject?.status === ProjectStatus.InProgress\<close>, where a
  \<open>Foreign\<close> root is truthy and has no \<^verbatim>\<open>status\<close>.\<close>

definition tasksForPrioritization ::
  "(string \<Rightarrow> bool) \<Rightarrow> (string \<Rightarrow> bool) \<Rightarrow> 'n store \<Rightarrow> 'n task list" where
  "tasksForPrioritization inheritedT inheritedP s =
     filter (\<lambda>task. if truthy_bool (completed task) then False
                    else (case findRootProjectForTask inheritedT inheritedP (tasks s)
                                 (projects s) (task_id task) of
                            Absent \<Rightarrow> True
                          | Foreign \<Rightarrow> False
                          | Own rootProject \<Rightarrow> status rootProject = InProgress))
       (tasks s)"

definition sortedTasks ::
  "(string \<Rightarrow> bool) \<Rightarrow> (string \<Rightarrow> bool) \<Rightarrow> 'n store \<Rightarrow> 'n task list" where
  "sortedTasks inheritedT inheritedP s =
     (let candidates = tasksForPrioritization inheritedT inheritedP s;
          uniqueIds = array_from_set (prioritizedTaskIds s);
          prioritized =
            List.map_filter (\<lambda>i. find (\<lambda>t. task_id t = i) candidates) uniqueIds;
          unprioritized = filter (\<lambda>t. task_id t \<notin> set uniqueIds) candidates
      in prioritized @ unprioritized)"

section \<open>The resolved root of a task\<close>

text \<open>
  The resolved root in the words of the specification, to compare the loops above with:
  walk up through \<^verbatim>\<open>parentTaskId\<close> to the nearest task carrying a
  \<^verbatim>\<open>projectId\<close>, then that project. The task (the project) an identifier names is
  the last one of the list with it; the empty string names nothing and is no link.
\<close>

definition taskWithId :: "'n task list \<Rightarrow> string \<Rightarrow> 'n task option" where
  "taskWithId ts i = find (\<lambda>t. task_id t = i) (rev ts)"

definition projectWithId :: "'n project list \<Rightarrow> string \<Rightarrow> 'n project option" where
  "projectWithId ps i = find (\<lambda>p. project_id p = i) (rev ps)"

text \<open>\<open>carrierAt ts n i c\<close>: going up from the task named \<open>i\<close>, the task \<open>c\<close> is
  reached after \<open>n\<close> steps along \<^verbatim>\<open>parentTaskId\<close> and is the first on the way that
  carries a \<^verbatim>\<open>projectId\<close>.\<close>

inductive carrierAt :: "'n task list \<Rightarrow> nat \<Rightarrow> string \<Rightarrow> 'n task \<Rightarrow> bool"
  for ts :: "'n task list" where
    here: "i \<noteq> [] \<Longrightarrow> taskWithId ts i = Some t \<Longrightarrow> truthy_str (projectId t)
             \<Longrightarrow> carrierAt ts 0 i t"
  | up: "i \<noteq> [] \<Longrightarrow> taskWithId ts i = Some t \<Longrightarrow> \<not> truthy_str (projectId t)
           \<Longrightarrow> parentTaskId t = Some j \<Longrightarrow> carrierAt ts n j c
           \<Longrightarrow> carrierAt ts (Suc n) i c"

text \<open>The resolved root of the task named \<open>i\<close> is the project \<open>p\<close>.\<close>

definition resolvedRoot :: "'n task list \<Rightarrow> 'n project list \<Rightarrow> string \<Rightarrow> 'n project \<Rightarrow> bool" where
  "resolvedRoot ts ps i p =
     (\<exists>n c pid. carrierAt ts n i c \<and> projectId c = Some pid \<and> projectWithId ps pid = Some p)"



section \<open>Auto-arrange\<close>

text \<open>A JavaScript \<^verbatim>\<open>Map\<close> whose keys are read back: an association list;
  \<^verbatim>\<open>set\<close> replaces the value of a key that is there and appends a new one,
  \<^verbatim>\<open>get\<close> is \<open>map_of\<close>.\<close>

fun map_set :: "'k \<Rightarrow> 'v \<Rightarrow> ('k \<times> 'v) list \<Rightarrow> ('k \<times> 'v) list" where
  "map_set k v [] = [(k, v)]"
| "map_set k v (e # m) = (if fst e = k then (k, v) # m else e # map_set k v m)"

text \<open>
  \<^verbatim>\<open>taskSorter\<close>. \<^verbatim>\<open>String.prototype.localeCompare\<close> belongs to the host and
  depends on its locale: it is the parameter \<open>lc\<close> (negative, zero or positive). A
  title is a string, so \<^verbatim>\<open>a.title || ''\<close> is the title.
\<close>

definition taskSorter :: "(string \<Rightarrow> string \<Rightarrow> int) \<Rightarrow> 'n task \<Rightarrow> 'n task \<Rightarrow> int" where
  "taskSorter lc a b =
     (if lc (task_title a) (task_title b) \<noteq> 0 then lc (task_title a) (task_title b)
      else lc (task_id a) (task_id b))"

text \<open>\<^verbatim>\<open>Array.prototype.sort\<close> with a comparator: a stable sort, here by insertion.\<close>

fun sort_insert :: "('a \<Rightarrow> 'a \<Rightarrow> int) \<Rightarrow> 'a \<Rightarrow> 'a list \<Rightarrow> 'a list" where
  "sort_insert cmp a [] = [a]"
| "sort_insert cmp a (b # bs) = (if cmp a b \<le> 0 then a # b # bs else b # sort_insert cmp a bs)"

definition js_sort :: "('a \<Rightarrow> 'a \<Rightarrow> int) \<Rightarrow> 'a list \<Rightarrow> 'a list" where
  "js_sort cmp xs = foldr (sort_insert cmp) xs []"

text \<open>\<^verbatim>\<open>childrenByParent.get(k) || []\<close> as the first loop of
  \<^verbatim>\<open>autoArrangeProjectTasks\<close> builds it: the tasks with a truthy
  \<^verbatim>\<open>parentTaskId\<close> equal to the key, in the order of the task list.\<close>

definition childrenByParent :: "'n task list \<Rightarrow> string \<Rightarrow> 'n task list" where
  "childrenByParent ts k =
     filter (\<lambda>t. truthy_str (parentTaskId t) \<and> parentTaskId t = Some k) ts"

definition arrangeRoots :: "string \<Rightarrow> 'n task list \<Rightarrow> 'n task list" where
  "arrangeRoots pid ts = filter (\<lambda>t. projectId t = Some pid \<and> \<not> truthy_str (parentTaskId t)) ts"

text \<open>
  \<^verbatim>\<open>collectDescendants\<close>, called on every root in turn. The source recurses into the
  children after the test and the insertion of the task; with the pending calls on an
  explicit stack this is the loop below, which visits the same tasks in the same order.
\<close>

function collectDescendants :: "'n task list \<Rightarrow> 'n task list \<Rightarrow> string list \<Rightarrow> string list" where
  "collectDescendants ts [] inProjectSet = inProjectSet"
| "collectDescendants ts (t # pending) inProjectSet =
     (if task_id t \<in> set inProjectSet then collectDescendants ts pending inProjectSet
      else collectDescendants ts (childrenByParent ts (task_id t) @ pending)
             (inProjectSet @ [task_id t]))"
  by pat_completeness auto

definition dfs_unvisited :: "'n task list \<Rightarrow> 'n task list \<Rightarrow> string list \<Rightarrow> nat" where
  "dfs_unvisited ts pending seen = card ((task_id ` set pending \<union> task_id ` set ts) - set seen)"

lemma dfs_unvisited_skip: "dfs_unvisited ts pending seen \<le> dfs_unvisited ts (t # pending) seen"
  unfolding dfs_unvisited_def by (rule card_mono) auto

lemma dfs_unvisited_visit:
  assumes "task_id t \<notin> set seen"
  shows "dfs_unvisited ts (childrenByParent ts (task_id t) @ pending) (seen @ [task_id t])
         < dfs_unvisited ts (t # pending) seen"
  unfolding dfs_unvisited_def
proof (rule psubset_card_mono)
  show "finite ((task_id ` set (t # pending) \<union> task_id ` set ts) - set seen)" by simp
  show "(task_id ` set (childrenByParent ts (task_id t) @ pending) \<union> task_id ` set ts)
          - set (seen @ [task_id t])
        \<subset> (task_id ` set (t # pending) \<union> task_id ` set ts) - set seen"
    using assms by (auto simp: childrenByParent_def)
qed

termination collectDescendants
proof (relation "measures [\<lambda>(ts, p, v). dfs_unvisited ts p v, \<lambda>(ts, p, v). length p]")
  show "wf (measures [\<lambda>(ts, p, v). dfs_unvisited ts p v, \<lambda>(ts, p, v). length p])"
    by simp
next
  fix ts pending :: "'n task list" and t :: "'n task" and inProjectSet :: "string list"
  assume "task_id t \<in> set inProjectSet"
  then show "((ts, pending, inProjectSet), (ts, t # pending, inProjectSet))
             \<in> measures [\<lambda>(ts, p, v). dfs_unvisited ts p v, \<lambda>(ts, p, v). length p]"
    using dfs_unvisited_skip [of ts pending inProjectSet t] by (simp add: le_less)
next
  fix ts pending :: "'n task list" and t :: "'n task" and inProjectSet :: "string list"
  assume "task_id t \<notin> set inProjectSet"
  then show "((ts, childrenByParent ts (task_id t) @ pending, inProjectSet @ [task_id t]),
              (ts, t # pending, inProjectSet))
             \<in> measures [\<lambda>(ts, p, v). dfs_unvisited ts p v, \<lambda>(ts, p, v). length p]"
    using dfs_unvisited_visit [of t inProjectSet ts pending] by simp
qed

text \<open>The children of a task that the layout looks at: the sorted list, filtered to
  \<^verbatim>\<open>inProjectSet\<close>.\<close>

definition kidsInProject ::
  "(string \<Rightarrow> string \<Rightarrow> int) \<Rightarrow> 'n task list \<Rightarrow> string list \<Rightarrow> string \<Rightarrow> 'n task list" where
  "kidsInProject lc ts inProjectSet k =
     filter (\<lambda>c. task_id c \<in> set inProjectSet) (js_sort (taskSorter lc) (childrenByParent ts k))"

text \<open>
  \<^verbatim>\<open>getSubtreeRows\<close>, with \<^verbatim>\<open>subtreeSizeCache\<close> passed through. The source
  recurses with no guard of its own, and the call stack of the host is finite: the
  recursion depth is bounded by a fuel, and \<open>None\<close> is the run that exhausts it.
\<close>

function getSubtreeRows ::
    "nat \<Rightarrow> (string \<Rightarrow> 'n task list) \<Rightarrow> string \<Rightarrow> (string \<times> int) list
       \<Rightarrow> (int \<times> (string \<times> int) list) option"
  and sumSubtreeRows ::
    "nat \<Rightarrow> (string \<Rightarrow> 'n task list) \<Rightarrow> 'n task list \<Rightarrow> int \<Rightarrow> (string \<times> int) list
       \<Rightarrow> (int \<times> (string \<times> int) list) option" where
  "getSubtreeRows 0 kidsOf taskId cache = None"
| "getSubtreeRows (Suc fuel) kidsOf taskId cache =
     (case map_of cache taskId of
        Some rows \<Rightarrow> Some (rows, cache)
      | None \<Rightarrow>
          if kidsOf taskId = [] then Some (1, map_set taskId 1 cache)
          else (case sumSubtreeRows fuel kidsOf (kidsOf taskId) 0 cache of
                  None \<Rightarrow> None
                | Some (acc, cache') \<Rightarrow> Some (max acc 1, map_set taskId (max acc 1) cache')))"
| "sumSubtreeRows fuel kidsOf [] acc cache = Some (acc, cache)"
| "sumSubtreeRows fuel kidsOf (k # ks) acc cache =
     (case getSubtreeRows fuel kidsOf (task_id k) cache of
        None \<Rightarrow> None
      | Some (rows, cache') \<Rightarrow> sumSubtreeRows fuel kidsOf ks (acc + rows) cache')"
  by pat_completeness auto

termination getSubtreeRows
  by (relation "measures
        [\<lambda>c. case c of Inl (fuel, k, i, m) \<Rightarrow> fuel | Inr (fuel, k, ks, a, m) \<Rightarrow> fuel,
         \<lambda>c. case c of Inl (fuel, k, i, m) \<Rightarrow> 0 | Inr (fuel, k, ks, a, m) \<Rightarrow> Suc (length ks)]")
     auto

text \<open>\<^verbatim>\<open>assign\<close>; the state is \<^verbatim>\<open>rowDepthById\<close> (identifier to row and depth)
  and the cache. \<open>rf\<close> is the fuel of the calls of \<^verbatim>\<open>getSubtreeRows\<close>.\<close>

function assign ::
    "nat \<Rightarrow> nat \<Rightarrow> (string \<Rightarrow> 'n task list) \<Rightarrow> 'n task \<Rightarrow> int \<Rightarrow> int
       \<Rightarrow> (string \<times> int \<times> int) list \<Rightarrow> (string \<times> int) list
       \<Rightarrow> ((string \<times> int \<times> int) list \<times> (string \<times> int) list) option"
  and assignKids ::
    "nat \<Rightarrow> nat \<Rightarrow> (string \<Rightarrow> 'n task list) \<Rightarrow> 'n task list \<Rightarrow> int \<Rightarrow> int
       \<Rightarrow> (string \<times> int \<times> int) list \<Rightarrow> (string \<times> int) list
       \<Rightarrow> ((string \<times> int \<times> int) list \<times> (string \<times> int) list) option" where
  "assign rf 0 kidsOf t depth startRow rowDepthById cache = None"
| "assign rf (Suc fuel) kidsOf t depth startRow rowDepthById cache =
     (case getSubtreeRows rf kidsOf (task_id t) cache of
        None \<Rightarrow> None
      | Some (rows, cache1) \<Rightarrow>
          assignKids rf fuel kidsOf (kidsOf (task_id t)) (depth + 1) startRow
            (map_set (task_id t) (startRow + (rows - 1) div 2, depth) rowDepthById) cache1)"
| "assignKids rf fuel kidsOf [] depth s rowDepthById cache = Some (rowDepthById, cache)"
| "assignKids rf fuel kidsOf (k # ks) depth s rowDepthById cache =
     (case getSubtreeRows rf kidsOf (task_id k) cache of
        None \<Rightarrow> None
      | Some (need, cache1) \<Rightarrow>
          (case assign rf fuel kidsOf k depth s rowDepthById cache1 of
             None \<Rightarrow> None
           | Some (rowDepthById', cache2) \<Rightarrow>
               assignKids rf fuel kidsOf ks depth (s + need) rowDepthById' cache2))"
  by pat_completeness auto

termination assign
  by (relation "measures
        [\<lambda>c. case c of Inl (rf, fuel, r) \<Rightarrow> fuel | Inr (rf, fuel, r) \<Rightarrow> fuel,
         \<lambda>c. case c of Inl (rf, fuel, k, t, r) \<Rightarrow> 0 | Inr (rf, fuel, k, ks, r) \<Rightarrow> Suc (length ks)]")
     auto

text \<open>The loop over the roots; the result carries \<^verbatim>\<open>currentRow\<close>.\<close>

fun assignRoots ::
    "nat \<Rightarrow> (string \<Rightarrow> 'n task list) \<Rightarrow> 'n task list \<Rightarrow> int
       \<Rightarrow> (string \<times> int \<times> int) list \<Rightarrow> (string \<times> int) list
       \<Rightarrow> (int \<times> (string \<times> int \<times> int) list \<times> (string \<times> int) list) option" where
  "assignRoots fuel kidsOf [] currentRow rowDepthById cache = Some (currentRow, rowDepthById, cache)"
| "assignRoots fuel kidsOf (r # rs) currentRow rowDepthById cache =
     (case getSubtreeRows fuel kidsOf (task_id r) cache of
        None \<Rightarrow> None
      | Some (need, cache1) \<Rightarrow>
          (case assign fuel fuel kidsOf r 1 currentRow rowDepthById cache1 of
             None \<Rightarrow> None
           | Some (rowDepthById', cache2) \<Rightarrow>
               assignRoots fuel kidsOf rs (currentRow + need + 1) rowDepthById' cache2))"

text \<open>The grid of \<^verbatim>\<open>autoArrangeProjectTasks\<close>: \<^verbatim>\<open>currentRow\<close>,
  \<^verbatim>\<open>rowDepthById\<close> and the cache after the loop over the sorted roots.\<close>

definition arrangeGrid ::
  "nat \<Rightarrow> (string \<Rightarrow> string \<Rightarrow> int) \<Rightarrow> string \<Rightarrow> 'n task list
     \<Rightarrow> (int \<times> (string \<times> int \<times> int) list \<times> (string \<times> int) list) option" where
  "arrangeGrid fuel lc pid ts =
     (let roots = arrangeRoots pid ts;
          inProjectSet = collectDescendants ts roots []
      in assignRoots fuel (kidsInProject lc ts inProjectSet)
           (js_sort (taskSorter lc) roots) 0 [] [])"

definition totalRowsOf :: "int \<Rightarrow> int" where
  "totalRowsOf currentRow = (if currentRow > 0 then currentRow - 1 else 0)"

text \<open>The pixel position of a grid cell, with \<^verbatim>\<open>rowSpacing = 140\<close> and
  \<^verbatim>\<open>colSpacing = 280\<close>; the numbers are reals here.\<close>

definition cellPosition :: "real position \<Rightarrow> int \<Rightarrow> int \<times> int \<Rightarrow> real position" where
  "cellPosition projectPos totalRows rd =
     \<lparr> pos_x = pos_x projectPos + real_of_int (snd rd) * 280,
       pos_y = pos_y projectPos
                 + (real_of_int (fst rd) - (real_of_int totalRows - 1) / 2) * 140 \<rparr>"

definition autoArrangeProjectTasks ::
  "nat \<Rightarrow> (string \<Rightarrow> string \<Rightarrow> int) \<Rightarrow> string \<Rightarrow> real store \<Rightarrow> real store option" where
  "autoArrangeProjectTasks fuel lc pid s =
     (case find (\<lambda>p. project_id p = pid) (projects s) of
        None \<Rightarrow> Some s
      | Some project \<Rightarrow>
          (case arrangeGrid fuel lc pid (tasks s) of
             None \<Rightarrow> None
           | Some (currentRow, rowDepthById, cache) \<Rightarrow>
               if rowDepthById = [] then Some s
               else
                 let newPositions =
                       map (\<lambda>(i, rd). (i, cellPosition (project_position project)
                                             (totalRowsOf currentRow) rd)) rowDepthById;
                     place = (\<lambda>t. case map_of newPositions (task_id t) of
                                     Some pos \<Rightarrow> t\<lparr>task_position := pos\<rparr>
                                   | None \<Rightarrow> t)
                 in Some (s\<lparr>tasks := map place (tasks s),
                            projects :=
                              map (\<lambda>p. if project_id p = pid
                                       then p\<lparr>project_tasks := map place (project_tasks p)\<rparr>
                                       else p) (projects s)\<rparr>)))"

section \<open>The layout in the words of the specification\<close>

text \<open>
  The layout that \<^verbatim>\<open>autoArrangeProjectTasks\<close> is to compute, written down from its
  description and not from the code, to compare \<open>arrangeGrid\<close> with. The tasks of a
  project are a forest: a task with the subtrees of its children.
\<close>

datatype 'n subtree = Subtree (topTask: "'n task") (below: "'n subtree list")

text \<open>The rows of a task: one for a task without children, the sum of the rows of its
  children otherwise.\<close>

fun rowsOf :: "'n subtree \<Rightarrow> int" where
  "rowsOf (Subtree t ks) = (if ks = [] then 1 else sum_list (map rowsOf ks))"

text \<open>
  A task is placed at row \<open>bandStart + floor ((rows - 1) / 2)\<close> and at its depth; its
  children are placed one level deeper and stacked within its band, the band of a child
  starting where the band of the child before it ends. The result lists identifier, row
  and depth, a task before its children.
\<close>

fun place :: "'n subtree \<Rightarrow> int \<Rightarrow> int \<Rightarrow> (string \<times> int \<times> int) list"
  and stack :: "'n subtree list \<Rightarrow> int \<Rightarrow> int \<Rightarrow> (string \<times> int \<times> int) list" where
  "place (Subtree t ks) depth bandStart =
     (task_id t, bandStart + (rowsOf (Subtree t ks) - 1) div 2, depth)
       # stack ks (depth + 1) bandStart"
| "stack [] depth bandStart = []"
| "stack (k # ks) depth bandStart =
     place k depth bandStart @ stack ks depth (bandStart + rowsOf k)"

text \<open>The roots are placed at depth 1, the band of a root starting one row after the
  end of the band of the root before it; \<open>rootBands\<close> is the row at which the band of
  a further root would start.\<close>

fun placeRoots :: "'n subtree list \<Rightarrow> int \<Rightarrow> (string \<times> int \<times> int) list" where
  "placeRoots [] bandStart = []"
| "placeRoots (r # rs) bandStart = place r 1 bandStart @ placeRoots rs (bandStart + rowsOf r + 1)"

fun rootBands :: "'n subtree list \<Rightarrow> int \<Rightarrow> int" where
  "rootBands [] bandStart = bandStart"
| "rootBands (r # rs) bandStart = rootBands rs (bandStart + rowsOf r + 1)"

text \<open>The number of levels of a subtree, its identifiers, and its subtrees, itself
  first.\<close>

fun height :: "'n subtree \<Rightarrow> nat" where
  "height (Subtree t ks) = Suc (foldr max (map height ks) 0)"

fun idsOf :: "'n subtree \<Rightarrow> string list" where
  "idsOf (Subtree t ks) = task_id t # concat (map idsOf ks)"

fun subtrees :: "'n subtree \<Rightarrow> 'n subtree list" where
  "subtrees (Subtree t ks) = Subtree t ks # concat (map subtrees ks)"

text \<open>Title-then-identifier order: \<open>a\<close> is not after \<open>b\<close>.\<close>

definition titleThenId :: "(string \<Rightarrow> string \<Rightarrow> int) \<Rightarrow> 'n task \<Rightarrow> 'n task \<Rightarrow> bool" where
  "titleThenId lc a b =
     (lc (task_title a) (task_title b) < 0
      \<or> (lc (task_title a) (task_title b) = 0 \<and> lc (task_id a) (task_id b) \<le> 0))"

text \<open>A subtree of a task list: the children of the task at its top are the tasks of
  the list whose \<^verbatim>\<open>parentTaskId\<close> is its identifier, each once for each time it is in
  the list, in title-then-identifier order, and so on below.\<close>

fun subtreeOf :: "(string \<Rightarrow> string \<Rightarrow> int) \<Rightarrow> 'n task list \<Rightarrow> 'n subtree \<Rightarrow> bool" where
  "subtreeOf lc ts (Subtree t ks) =
     (mset (map topTask ks)
        = mset (filter (\<lambda>c. task_id t \<noteq> [] \<and> parentTaskId c = Some (task_id t)) ts)
      \<and> sorted_wrt (titleThenId lc) (map topTask ks)
      \<and> (\<forall>k\<in>set ks. subtreeOf lc ts k))"

text \<open>The forest of a project: its roots are the tasks linked to the project that have
  no parent, in title-then-identifier order.\<close>

definition forestOf ::
  "(string \<Rightarrow> string \<Rightarrow> int) \<Rightarrow> string \<Rightarrow> 'n task list \<Rightarrow> 'n subtree list \<Rightarrow> bool" where
  "forestOf lc pid ts trs =
     (mset (map topTask trs)
        = mset (filter (\<lambda>t. projectId t = Some pid \<and> \<not> truthy_str (parentTaskId t)) ts)
      \<and> sorted_wrt (titleThenId lc) (map topTask trs)
      \<and> (\<forall>tr\<in>set trs. subtreeOf lc ts tr))"

text \<open>What is asked of \<^verbatim>\<open>localeCompare\<close>: it is a three-way comparison (the
  results for two strings and for the same strings swapped have opposite signs, and
  ``not after'' is transitive), and it tells the identifiers at hand apart.\<close>

definition threeWay :: "(string \<Rightarrow> string \<Rightarrow> int) \<Rightarrow> bool" where
  "threeWay lc =
     ((\<forall>x y. (lc x y < 0) = (0 < lc y x))
      \<and> (\<forall>x y z. lc x y \<le> 0 \<and> lc y z \<le> 0 \<longrightarrow> lc x z \<le> 0))"

definition tellsApart :: "(string \<Rightarrow> string \<Rightarrow> int) \<Rightarrow> string list \<Rightarrow> bool" where
  "tellsApart lc ids = (\<forall>i\<in>set ids. \<forall>j\<in>set ids. lc i j = 0 \<longrightarrow> i = j)"

text \<open>
  Three notions that relate the two. A subtree unfolds along \<open>kidsOf\<close> when the
  children that \<open>kidsOf\<close> gives for the task at its top are the tops of its subtrees,
  and so on below. A cache is right when the number it holds for an identifier is the
  number of rows of every subtree that unfolds from a task with that identifier.
  \<open>setAll\<close> is a sequence of \<^verbatim>\<open>Map.prototype.set\<close>.
\<close>

fun unfolds :: "(string \<Rightarrow> 'n task list) \<Rightarrow> 'n subtree \<Rightarrow> bool" where
  "unfolds kidsOf (Subtree t ks) =
     (kidsOf (task_id t) = map topTask ks \<and> (\<forall>k\<in>set ks. unfolds kidsOf k))"

definition cacheOk :: "(string \<Rightarrow> 'n task list) \<Rightarrow> (string \<times> int) list \<Rightarrow> bool" where
  "cacheOk kidsOf cache =
     (\<forall>i r. map_of cache i = Some r \<longrightarrow>
        (\<forall>u. unfolds kidsOf u \<and> task_id (topTask u) = i \<longrightarrow> rowsOf u = r))"

definition setAll :: "('k \<times> 'v) list \<Rightarrow> ('k \<times> 'v) list \<Rightarrow> ('k \<times> 'v) list" where
  "setAll entries m = fold (\<lambda>e. map_set (fst e) (snd e)) entries m"


section \<open>Sequences of operations\<close>

text \<open>One constructor for each mutation the hook returns that touches projects, tasks
  or the priority list, with the arguments of the call (and the clock readings, the
  choice of React for the updater and the recursion bound of the model).\<close>

datatype operation =
    AddProject "real project" string "real position"
  | UpdateProject string "real project_patch"
  | MoveProjectGroup string "real delta"
  | MoveTaskSubtree string "real delta"
  | FinishProject string
  | ReactivateProject string
  | ToggleProjectCollapse string
  | DeleteProject string
  | AddTask "real task" string
  | UpdateTask string "real task_patch"
  | UpdateTaskPosition string "real position"
  | DeleteTask string
  | LinkTaskToProject bool string string
  | LinkTaskToTask string string string
  | UnlinkTask bool string string
  | UnlinkTaskFromParent string
  | UpdateLineStyle string "real lineStyle option"
  | SetPrioritizedTasks "string list"
  | AutoArrangeProjectTasks nat "string \<Rightarrow> string \<Rightarrow> int" string

fun perform :: "operation \<Rightarrow> real store \<Rightarrow> real store option" where
  "perform (AddProject projectData newId pos) s = Some (addProject projectData newId pos s)"
| "perform (UpdateProject pid projectData) s = Some (updateProject pid projectData s)"
| "perform (MoveProjectGroup pid d) s = Some (moveProjectGroup pid d s)"
| "perform (MoveTaskSubtree tid d) s = Some (moveTaskSubtree tid d s)"
| "perform (FinishProject pid) s = Some (finishProject pid s)"
| "perform (ReactivateProject pid) s = Some (reactivateProject pid s)"
| "perform (ToggleProjectCollapse pid) s = Some (toggleProjectCollapse pid s)"
| "perform (DeleteProject pid) s = Some (deleteProject pid s)"
| "perform (AddTask taskData newId) s = Some (addTask taskData newId s)"
| "perform (UpdateTask tid taskData) s = Some (updateTask tid taskData s)"
| "perform (UpdateTaskPosition tid pos) s = Some (updateTaskPosition tid pos s)"
| "perform (DeleteTask tid) s = Some (deleteTask tid s)"
| "perform (LinkTaskToProject eager tid pid) s = Some (linkTaskToProject eager tid pid s)"
| "perform (LinkTaskToTask childTaskId parentId now) s =
     Some (linkTaskToTask childTaskId parentId now s)"
| "perform (UnlinkTask eager pid tid) s = Some (unlinkTask eager pid tid s)"
| "perform (UnlinkTaskFromParent childTaskId) s = unlinkTaskFromParent childTaskId s"
| "perform (UpdateLineStyle tid ls) s = Some (updateLineStyle tid ls s)"
| "perform (SetPrioritizedTasks ids) s = Some (setPrioritizedTasks ids s)"
| "perform (AutoArrangeProjectTasks fuel lc pid) s = autoArrangeProjectTasks fuel lc pid s"

fun performAll :: "operation list \<Rightarrow> real store \<Rightarrow> real store option" where
  "performAll [] s = Some s"
| "performAll (a # as) s = (case perform a s of None \<Rightarrow> None | Some s' \<Rightarrow> performAll as s')"

text \<open>Invariant 1 on one task.\<close>

definition exclusive :: "'n task \<Rightarrow> bool" where
  "exclusive t = (projectId t = None \<or> parentTaskId t = None)"

text \<open>Invariant 1 on the flat task list of a store.\<close>

definition all_exclusive :: "'n store \<Rightarrow> bool" where
  "all_exclusive s = (\<forall>t\<in>set (tasks s). exclusive t)"

text \<open>An \<^verbatim>\<open>updateTask\<close> whose data carries neither \<^verbatim>\<open>projectId\<close> nor
  \<^verbatim>\<open>parentTaskId\<close>.\<close>

fun nonLinkUpdate :: "operation \<Rightarrow> bool" where
  "nonLinkUpdate (UpdateTask tid taskData) =
     (patch_projectId taskData = None \<and> patch_parentTaskId taskData = None)"
| "nonLinkUpdate a = True"

section \<open>Concrete stores\<close>

text \<open>\<^verbatim>\<open>tasks.find(t => t.id === id)\<close>, as the operations above read a task.\<close>

definition findTask :: "string \<Rightarrow> 'n task list \<Rightarrow> 'n task option" where
  "findTask tid ts = find (\<lambda>t. task_id t = tid) ts"

text \<open>A task and a project with the given identifier and links, every other field at a
  default; the stores below are built from them.\<close>

definition demoTask :: "string \<Rightarrow> string option \<Rightarrow> string option \<Rightarrow> real task" where
  "demoTask i pid parent =
     \<lparr> task_id = i, task_title = i, task_content = [], task_date = None, task_endDate = None,
       task_fileURL = None, task_fileName = None, task_storagePath = None,
       completed = Some False, completionDate = None,
       task_position = \<lparr> pos_x = 0, pos_y = 0 \<rparr>,
       projectId = pid, parentTaskId = parent, task_lineStyle = None \<rparr>"

definition demoProject :: "string \<Rightarrow> ProjectStatus \<Rightarrow> real task list \<Rightarrow> real project" where
  "demoProject i st cache =
     \<lparr> project_id = i, project_title = i, project_content = None, status = st,
       project_tasks = cache, project_date = None, project_endDate = None,
       project_fileURL = None, project_fileName = None, project_storagePath = None,
       project_position = \<lparr> pos_x = 200, pos_y = 200 \<rparr>, isCollapsed = Some False \<rparr>"

text \<open>\<^verbatim>\<open>{ completed: c }\<close>\<close>

definition completedPatch :: "bool option \<Rightarrow> real task_patch" where
  "completedPatch c =
     \<lparr> patch_id = None, patch_title = None, patch_content = None, patch_date = None,
       patch_endDate = None, patch_fileURL = None, patch_fileName = None,
       patch_storagePath = None, patch_completed = Some c, patch_completionDate = None,
       patch_position = None, patch_projectId = None, patch_parentTaskId = None,
       patch_lineStyle = None \<rparr>"

text \<open>Two unlinked tasks, both prioritized.\<close>

definition pairStore :: "real store" where
  "pairStore =
     \<lparr> projects = [],
       tasks = [demoTask ''c'' None None, demoTask ''p'' None None],
       prioritizedTaskIds = [''c'', ''p''] \<rparr>"

text \<open>One unlinked task, prioritized.\<close>

definition singleStore :: "real store" where
  "singleStore =
     \<lparr> projects = [], tasks = [demoTask ''a'' None None], prioritizedTaskIds = [''a''] \<rparr>"

text \<open>A project whose cached list is empty although a task of the flat list points at it.\<close>

definition staleStore :: "real store" where
  "staleStore =
     \<lparr> projects = [demoProject ''p'' InProgress []],
       tasks = [demoTask ''t'' (Some ''p'') None],
       prioritizedTaskIds = [] \<rparr>"

text \<open>The same project with the task in its cached list.\<close>

definition cachedStore :: "real store" where
  "cachedStore =
     \<lparr> projects = [demoProject ''p'' InProgress [demoTask ''t'' (Some ''p'') None]],
       tasks = [demoTask ''t'' (Some ''p'') None],
       prioritizedTaskIds = [''t''] \<rparr>"

text \<open>Two unlinked tasks linked under each other, as two clicks on the canvas do.\<close>

definition cycleStore :: "real store" where
  "cycleStore =
     linkTaskToTask ''b'' ''a'' ''t2''
       (linkTaskToTask ''a'' ''b'' ''t1''
          \<lparr> projects = [],
            tasks = [demoTask ''a'' None None, demoTask ''b'' None None],
            prioritizedTaskIds = [''a'', ''b''] \<rparr>)"

text \<open>A project with one task of its own and one unlinked task, and a run of operations
  on them.\<close>

definition linkedStore :: "real store" where
  "linkedStore =
     \<lparr> projects = [demoProject ''p'' InProgress [demoTask ''a'' (Some ''p'') None]],
       tasks = [demoTask ''a'' (Some ''p'') None, demoTask ''b'' None None],
       prioritizedTaskIds = [''a'', ''b''] \<rparr>"

definition linkedRun :: "operation list" where
  "linkedRun =
     [LinkTaskToTask ''a'' ''b'' ''t1'', UnlinkTaskFromParent ''a'',
      LinkTaskToProject True ''a'' ''p'', UpdateTask ''a'' (completedPatch (Some True)),
      DeleteTask ''b'']"

section \<open>The descendant closure\<close>

text \<open>The identifiers reachable from a set of seeds by following parent-to-child links of
  the task list: the seeds, and the identifier of every task whose \<^verbatim>\<open>parentTaskId\<close>
  is reachable.\<close>

inductive_set descendantClosure :: "string set \<Rightarrow> 'n task list \<Rightarrow> string set"
  for seeds :: "string set" and ts :: "'n task list" where
    seed: "i \<in> seeds \<Longrightarrow> i \<in> descendantClosure seeds ts"
  | child: "a \<in> descendantClosure seeds ts \<Longrightarrow> t \<in> set ts \<Longrightarrow> parentTaskId t = Some a
             \<Longrightarrow> task_id t \<in> descendantClosure seeds ts"


text \<open>Every child, in the task list, of an identifier of \<open>V\<close> is in \<open>W\<close>.\<close>

definition childClosed :: "'n task list \<Rightarrow> string set \<Rightarrow> string set \<Rightarrow> bool" where
  "childClosed ts V W = (\<forall>a\<in>V. \<forall>t\<in>set ts. parentTaskId t = Some a \<longrightarrow> task_id t \<in> W)"


section \<open>More concrete stores\<close>

text \<open>A project in progress with a task and a subtask of it, a completed project with a
  task and a subtask of it, an unlinked task, a completed task, and a task whose
  \<^verbatim>\<open>projectId\<close> names no project; all are prioritized, with an identifier of no task
  among them.\<close>

definition viewStore :: "real store" where
  "viewStore =
     \<lparr> projects = [demoProject ''live'' InProgress [], demoProject ''done'' Completed []],
       tasks = [demoTask ''a'' (Some ''live'') None, demoTask ''k'' None (Some ''a''),
                demoTask ''d'' (Some ''done'') None, demoTask ''e'' None (Some ''d''),
                demoTask ''u'' None None,
                (demoTask ''f'' (Some ''live'') None)\<lparr>completed := Some True\<rparr>,
                demoTask ''g'' (Some ''constructor'') None],
       prioritizedTaskIds = [''k'', ''e'', ''u'', ''f'', ''g'', ''x'', ''a''] \<rparr>"


text \<open>A project whose cached list lags behind the flat list, with a nested subtask and
  an unlinked task beside it.\<close>

definition groupStore :: "real store" where
  "groupStore =
     \<lparr> projects = [demoProject ''p'' InProgress [demoTask ''t1'' (Some ''p'') None],
                   demoProject ''q'' InProgress []],
       tasks = [demoTask ''t1'' (Some ''p'') None, demoTask ''t2'' None (Some ''t1''),
                demoTask ''t3'' (Some ''p'') None, demoTask ''u'' None None],
       prioritizedTaskIds = [] \<rparr>"




text \<open>A comparison of two strings by the codes of their characters, standing in for
  \<^verbatim>\<open>localeCompare\<close> on the identifiers and titles of the store below.\<close>

fun codeCompare :: "string \<Rightarrow> string \<Rightarrow> int" where
  "codeCompare [] [] = 0"
| "codeCompare [] (b # bs) = - 1"
| "codeCompare (a # as) [] = 1"
| "codeCompare (a # as) (b # bs) =
     (if (of_char a :: nat) < of_char b then - 1
      else if (of_char b :: nat) < of_char a then 1
      else codeCompare as bs)"


text \<open>A project with the roots \<open>R1\<close> (children \<open>A\<close> and \<open>B\<close>) and \<open>R2\<close> (child
  \<open>C\<close>), stored out of order, and an unlinked task.\<close>

definition arrangeStore :: "real store" where
  "arrangeStore =
     \<lparr> projects = [demoProject ''p'' InProgress []],
       tasks = [demoTask ''R2'' (Some ''p'') None, demoTask ''C'' None (Some ''R2''),
                demoTask ''B'' None (Some ''R1''), demoTask ''R1'' (Some ''p'') None,
                demoTask ''A'' None (Some ''R1''), demoTask ''u'' None None],
       prioritizedTaskIds = [] \<rparr>"

text \<open>The forest of the project of \<open>arrangeStore\<close>.\<close>

definition arrangeForest :: "real subtree list" where
  "arrangeForest =
     [Subtree (demoTask ''R1'' (Some ''p'') None)
        [Subtree (demoTask ''A'' None (Some ''R1'')) [],
         Subtree (demoTask ''B'' None (Some ''R1'')) []],
      Subtree (demoTask ''R2'' (Some ''p'') None)
        [Subtree (demoTask ''C'' None (Some ''R2'')) []]]"

text \<open>A task with the given identifier, title and links.\<close>

definition titledTask :: "string \<Rightarrow> string \<Rightarrow> string option \<Rightarrow> string option \<Rightarrow> real task" where
  "titledTask i title pid parent = (demoTask i pid parent)\<lparr>task_title := title\<rparr>"

text \<open>
  A project with three levels of tasks, stored out of order. The root \<open>s\<close> comes
  before the root \<open>r\<close> by its title; the children \<open>k1\<close> and \<open>k2\<close> of \<open>r\<close> have the
  same title and are ordered by their identifiers; the children of \<open>k1\<close> are ordered by
  their titles, \<open>l2\<close> before \<open>l1\<close>. A task of another project and its child stand beside
  them.
\<close>

definition deepStore :: "real store" where
  "deepStore =
     \<lparr> projects = [demoProject ''p'' InProgress [], demoProject ''q'' InProgress []],
       tasks = [titledTask ''k2'' ''x'' None (Some ''r''),
                titledTask ''l1'' ''z'' None (Some ''k1''),
                titledTask ''r'' ''r'' (Some ''p'') None,
                titledTask ''o'' ''o'' (Some ''q'') None,
                titledTask ''l2'' ''y'' None (Some ''k1''),
                titledTask ''s'' ''a'' (Some ''p'') None,
                titledTask ''k1'' ''x'' None (Some ''r''),
                titledTask ''oc'' ''oc'' None (Some ''o'')],
       prioritizedTaskIds = [] \<rparr>"

definition deepForest :: "real subtree list" where
  "deepForest =
     [Subtree (titledTask ''s'' ''a'' (Some ''p'') None) [],
      Subtree (titledTask ''r'' ''r'' (Some ''p'') None)
        [Subtree (titledTask ''k1'' ''x'' None (Some ''r''))
           [Subtree (titledTask ''l2'' ''y'' None (Some ''k1'')) [],
            Subtree (titledTask ''l1'' ''z'' None (Some ''k1'')) []],
         Subtree (titledTask ''k2'' ''x'' None (Some ''r'')) []]]"

section \<open>Properties\<close>

subsection \<open>Helper facts\<close>

lemma demoTask_sel [simp]:
  "task_id (demoTask i pid parent) = i"
  "projectId (demoTask i pid parent) = pid"
  "parentTaskId (demoTask i pid parent) = parent"
  "completed (demoTask i pid parent) = Some False"
  "completionDate (demoTask i pid parent) = None"
  "task_title (demoTask i pid parent) = i"
  by (simp_all add: demoTask_def)

lemma demoProject_sel [simp]:
  "project_id (demoProject i st cache) = i"
  "status (demoProject i st cache) = st"
  "project_tasks (demoProject i st cache) = cache"
  by (simp_all add: demoProject_def)

lemma uniq_acc_set: "set (uniq_acc seen ids) = set seen \<union> set ids"
  by (induction ids arbitrary: seen) auto

lemma uniq_acc_distinct: "distinct seen \<Longrightarrow> distinct (uniq_acc seen ids)"
  by (induction ids arbitrary: seen) auto

lemma array_from_set_set [simp]: "set (array_from_set ids) = set ids"
  by (simp add: array_from_set_def uniq_acc_set)

lemma array_from_set_distinct [simp]: "distinct (array_from_set ids)"
  by (simp add: array_from_set_def uniq_acc_distinct)

lemma find_SomeD: "find P xs = Some x \<Longrightarrow> x \<in> set xs \<and> P x"
  by (induction xs) (auto split: if_splits)

lemma find_map_id:
  assumes "\<And>t. task_id (f t) = task_id t"
  shows "find (\<lambda>t. task_id t = k) (map f ts) = map_option f (find (\<lambda>t. task_id t = k) ts)"
  by (induction ts) (auto simp: assms)

subsection \<open>Exclusivity of the two links\<close>

lemma exclusive_simps [simp]:
  "exclusive (t\<lparr>task_position := pos\<rparr>) = exclusive t"
  "exclusive (t\<lparr>parentTaskId := None\<rparr>)"
  "exclusive (t\<lparr>projectId := None\<rparr>)"
  "exclusive (t\<lparr>parentTaskId := None, projectId := q\<rparr>)"
  "exclusive (t\<lparr>projectId := q, parentTaskId := None\<rparr>)"
  "exclusive (t\<lparr>parentTaskId := q, projectId := None\<rparr>)"
  "exclusive (t\<lparr>completed := c, completionDate := cd\<rparr>) = exclusive t"
  by (simp_all add: exclusive_def)

lemma exclusive_merge:
  "patch_projectId d = None \<Longrightarrow> patch_parentTaskId d = None \<Longrightarrow> exclusive t
     \<Longrightarrow> exclusive (merge_task t d)"
  by (simp add: exclusive_def merge_task_def spread_def)

lemma ex_updateTask:
  "patch_projectId d = None \<Longrightarrow> patch_parentTaskId d = None \<Longrightarrow> all_exclusive s
     \<Longrightarrow> all_exclusive (updateTask tid d s)"
  by (auto simp: all_exclusive_def updateTask_def exclusive_merge)

lemma ex_addProject: "all_exclusive s \<Longrightarrow> all_exclusive (addProject a b c s)"
  by (auto simp: all_exclusive_def addProject_def)

lemma ex_updateProject: "all_exclusive s \<Longrightarrow> all_exclusive (updateProject a b s)"
  by (auto simp: all_exclusive_def updateProject_def)

lemma ex_moveProjectGroup: "all_exclusive s \<Longrightarrow> all_exclusive (moveProjectGroup a b s)"
  by (auto simp: all_exclusive_def moveProjectGroup_def Let_def split: option.splits)

lemma ex_moveTaskSubtree: "all_exclusive s \<Longrightarrow> all_exclusive (moveTaskSubtree a b s)"
  by (auto simp: all_exclusive_def moveTaskSubtree_def Let_def split: option.splits)

lemma ex_finishProject: "all_exclusive s \<Longrightarrow> all_exclusive (finishProject a s)"
  by (auto simp: all_exclusive_def finishProject_def Let_def split: option.splits)

lemma ex_reactivateProject: "all_exclusive s \<Longrightarrow> all_exclusive (reactivateProject a s)"
  by (auto simp: all_exclusive_def reactivateProject_def setPrioritizedTasks_def Let_def)

lemma ex_toggle: "all_exclusive s \<Longrightarrow> all_exclusive (toggleProjectCollapse a s)"
  by (auto simp: all_exclusive_def toggleProjectCollapse_def)

lemma ex_deleteProject: "all_exclusive s \<Longrightarrow> all_exclusive (deleteProject a s)"
  by (auto simp: all_exclusive_def deleteProject_def Let_def)

lemma ex_addTask: "all_exclusive s \<Longrightarrow> all_exclusive (addTask a b s)"
  by (auto simp: all_exclusive_def addTask_def Let_def exclusive_def)

lemma ex_updateTaskPosition: "all_exclusive s \<Longrightarrow> all_exclusive (updateTaskPosition a b s)"
  by (auto simp: all_exclusive_def updateTaskPosition_def)

lemma ex_deleteTask: "all_exclusive s \<Longrightarrow> all_exclusive (deleteTask a s)"
  by (auto simp: all_exclusive_def deleteTask_def Let_def)

lemma ex_linkTaskToProject: "all_exclusive s \<Longrightarrow> all_exclusive (linkTaskToProject e a b s)"
  by (auto simp: all_exclusive_def linkTaskToProject_def Let_def)

lemma ex_linkTaskToTask: "all_exclusive s \<Longrightarrow> all_exclusive (linkTaskToTask a b c s)"
  by (auto simp: all_exclusive_def linkTaskToTask_def Let_def)

lemma ex_unlinkTask: "all_exclusive s \<Longrightarrow> all_exclusive (unlinkTask e a b s)"
  by (auto simp: all_exclusive_def unlinkTask_def Let_def split: option.splits)

lemma ex_unlinkTaskFromParent:
  "all_exclusive s \<Longrightarrow> unlinkTaskFromParent a s = Some s' \<Longrightarrow> all_exclusive s'"
  by (auto simp: all_exclusive_def unlinkTaskFromParent_def Let_def
           split: option.splits if_splits)

lemma ex_updateLineStyle: "all_exclusive s \<Longrightarrow> all_exclusive (updateLineStyle a b s)"
  by (simp add: updateLineStyle_def ex_updateTask lineStylePatch_def)

lemma ex_setPrioritizedTasks: "all_exclusive s \<Longrightarrow> all_exclusive (setPrioritizedTasks a s)"
  by (auto simp: all_exclusive_def setPrioritizedTasks_def)

lemma ex_autoArrange:
  "all_exclusive s \<Longrightarrow> autoArrangeProjectTasks f lc a s = Some s' \<Longrightarrow> all_exclusive s'"
  by (auto simp: all_exclusive_def autoArrangeProjectTasks_def Let_def
           split: option.splits if_splits prod.splits)

lemma ex_perform:
  "nonLinkUpdate a \<Longrightarrow> all_exclusive s \<Longrightarrow> perform a s = Some s' \<Longrightarrow> all_exclusive s'"
  by (cases a)
     (auto simp: ex_updateTask ex_addProject ex_updateProject ex_moveProjectGroup
        ex_moveTaskSubtree ex_finishProject ex_reactivateProject ex_toggle ex_deleteProject
        ex_addTask ex_updateTaskPosition ex_deleteTask ex_linkTaskToProject ex_linkTaskToTask
        ex_unlinkTask ex_updateLineStyle ex_setPrioritizedTasks
      intro: ex_unlinkTaskFromParent ex_autoArrange)

lemma ex_performAll:
  "\<forall>a\<in>set ops. nonLinkUpdate a \<Longrightarrow> all_exclusive s \<Longrightarrow> performAll ops s = Some s'
     \<Longrightarrow> all_exclusive s'"
proof (induction ops arbitrary: s)
  case Nil
  then show ?case by simp
next
  case (Cons a ops)
  then obtain s1 where s1: "perform a s = Some s1" and r: "performAll ops s1 = Some s'"
    by (auto split: option.splits)
  have "all_exclusive s1"
    using ex_perform [OF _ Cons.prems(2) s1] Cons.prems(1) by simp
  then show ?case
    using Cons.IH [OF _ _ r] Cons.prems(1) by simp
qed

text \<open>
  C1. Exclusivity invariant. If every task of the flat list has at most one of
  \<^verbatim>\<open>projectId\<close> and \<^verbatim>\<open>parentTaskId\<close> non-null, then after any sequence of store
  operations that returns (every operation of the hook, an \<^verbatim>\<open>updateTask\<close> carrying
  neither link field) every task of the flat list still has at most one of them non-null.
\<close>

theorem exclusivity_invariant:
  assumes "\<forall>a\<in>set ops. nonLinkUpdate a"
    and "\<forall>t\<in>set (tasks s). projectId t = None \<or> parentTaskId t = None"
    and "performAll ops s = Some s'"
  shows "\<forall>t\<in>set (tasks s'). projectId t = None \<or> parentTaskId t = None"
proof -
  have "all_exclusive s"
    using assms(2) by (simp add: all_exclusive_def exclusive_def)
  from ex_performAll [OF assms(1) this assms(3)] show ?thesis
    by (simp add: all_exclusive_def exclusive_def)
qed

lemma linkedRun_result:
  "performAll linkedRun linkedStore =
     Some \<lparr> projects =
              [demoProject ''p'' InProgress
                 [(demoTask ''a'' (Some ''p'') None)\<lparr>completed := Some True\<rparr>]],
            tasks = [(demoTask ''a'' (Some ''p'') None)\<lparr>completed := Some True\<rparr>],
            prioritizedTaskIds = [] \<rparr>"
  by (simp add: linkedRun_def linkedStore_def linkTaskToTask_def unlinkTaskFromParent_def
        ancestorProjectSearch.simps linkTaskToProject_def updateTask_def deleteTask_def
        effectiveCompletionDate_def completedPatch_def merge_task_def spread_def Let_def
        demoTask_def demoProject_def)

theorem exclusivity_invariant_witness:
  "list_all nonLinkUpdate linkedRun
   \<and> list_all exclusive (tasks linkedStore)
   \<and> (\<exists>s'. performAll linkedRun linkedStore = Some s' \<and> list_all exclusive (tasks s'))"
proof -
  have a: "\<forall>a\<in>set linkedRun. nonLinkUpdate a"
    by (simp add: linkedRun_def completedPatch_def)
  have b: "\<forall>t\<in>set (tasks linkedStore). projectId t = None \<or> parentTaskId t = None"
    by (simp add: linkedStore_def)
  from exclusivity_invariant [OF a b linkedRun_result] a b linkedRun_result
  show ?thesis
    unfolding list_all_iff exclusive_def by blast
qed

subsection \<open>The priority list\<close>

text \<open>
  C2. Priority-list dedup invariant. The claim fails on \<^verbatim>\<open>linkTaskToTask\<close>, which
  appends the child's identifier without looking for it: on a list that holds the child
  and has no duplicate, the child ends up in the list twice.
\<close>

theorem linkTaskToTask_duplicates_child:
  "distinct (prioritizedTaskIds pairStore)
   \<and> prioritizedTaskIds (linkTaskToTask ''c'' ''p'' ''now'' pairStore) = [''c'', ''c'']"
  by (simp add: pairStore_def linkTaskToTask_def Let_def)

theorem linkTaskToTask_duplicates_child_witness:
  "\<not> distinct (prioritizedTaskIds (linkTaskToTask ''c'' ''p'' ''now'' pairStore))"
  using linkTaskToTask_duplicates_child by simp

text \<open>The operations that route the list through \<^verbatim>\<open>setPrioritizedTasks\<close>, test
  \<^verbatim>\<open>includes\<close> or only filter it keep it free of duplicates.\<close>

lemma distinct_addTask:
  "distinct (prioritizedTaskIds s) \<Longrightarrow> distinct (prioritizedTaskIds (addTask td newId s))"
  by (simp add: addTask_def Let_def)

lemma distinct_setPrioritizedTasks: "distinct (prioritizedTaskIds (setPrioritizedTasks ids s))"
  by (simp add: setPrioritizedTasks_def)


lemma distinct_reactivateProject:
  "distinct (prioritizedTaskIds s) \<Longrightarrow> distinct (prioritizedTaskIds (reactivateProject pid s))"
  by (simp add: reactivateProject_def setPrioritizedTasks_def Let_def)

lemma distinct_deleteTask:
  "distinct (prioritizedTaskIds s) \<Longrightarrow> distinct (prioritizedTaskIds (deleteTask tid s))"
  by (simp add: deleteTask_def Let_def)

lemma distinct_deleteProject:
  "distinct (prioritizedTaskIds s) \<Longrightarrow> distinct (prioritizedTaskIds (deleteProject pid s))"
  by (simp add: deleteProject_def Let_def)

lemma distinct_updateTask:
  "distinct (prioritizedTaskIds s) \<Longrightarrow> distinct (prioritizedTaskIds (updateTask tid d s))"
  by (simp add: updateTask_def)

text \<open>
  C10. Frame property of \<^verbatim>\<open>updateTask\<close> on the priority list: the list is the old
  one with the task's identifier filtered out when the update carries
  \<^verbatim>\<open>completed: true\<close>, and exactly the old one for every other update, the one that
  sets \<^verbatim>\<open>completed\<close> to false included.
\<close>

theorem updateTask_priority_frame:
  "prioritizedTaskIds (updateTask taskId taskData s) =
     (if patch_completed taskData = Some (Some True)
      then filter (\<lambda>i. i \<noteq> taskId) (prioritizedTaskIds s)
      else prioritizedTaskIds s)"
proof (cases "patch_completed taskData")
  case None
  then show ?thesis by (simp add: updateTask_def spread_def)
next
  case (Some c)
  then show ?thesis by (cases c) (auto simp: updateTask_def spread_def)
qed

theorem updateTask_priority_frame_witness:
  "prioritizedTaskIds (updateTask ''t'' (completedPatch (Some False)) cachedStore) = [''t'']
   \<and> prioritizedTaskIds (updateTask ''t'' (completedPatch (Some True)) cachedStore) = []
   \<and> prioritizedTaskIds
        (updateTask ''t'' (completedPatch (Some False))
           (updateTask ''t'' (completedPatch (Some True)) cachedStore)) = []"
  using updateTask_priority_frame [of "''t''" "completedPatch (Some False)" cachedStore]
    updateTask_priority_frame [of "''t''" "completedPatch (Some True)" cachedStore]
    updateTask_priority_frame [of "''t''" "completedPatch (Some False)"
      "updateTask ''t'' (completedPatch (Some True)) cachedStore"]
  by (simp add: completedPatch_def cachedStore_def)

subsection \<open>linkTaskToTask\<close>

text \<open>
  C8. linkTaskToTask postcondition. For a child and another task as parent, both in
  the state, after \<^verbatim>\<open>linkTaskToTask(child, parent)\<close> the parent is completed and
  carries a completion timestamp, which is the one it had before when it had one and the
  time of the call otherwise; the child's \<^verbatim>\<open>projectId\<close> is null and its
  \<^verbatim>\<open>parentTaskId\<close> is the parent's identifier; the priority list does not contain the
  parent's identifier and ends with the child's.
\<close>

theorem linkTaskToTask_postcondition:
  assumes ne: "childTaskId \<noteq> parentId"
    and pb: "findTask parentId (tasks s) = Some parentBefore"
    and cb: "findTask childTaskId (tasks s) = Some childBefore"
  shows "\<exists>pa ca.
           findTask parentId (tasks (linkTaskToTask childTaskId parentId now s)) = Some pa
         \<and> completed pa = Some True
         \<and> completionDate pa =
             Some (case completionDate parentBefore of None \<Rightarrow> now | Some d \<Rightarrow> d)
         \<and> findTask childTaskId (tasks (linkTaskToTask childTaskId parentId now s)) = Some ca
         \<and> projectId ca = None \<and> parentTaskId ca = Some parentId
         \<and> parentId \<notin> set (prioritizedTaskIds (linkTaskToTask childTaskId parentId now s))
         \<and> prioritizedTaskIds (linkTaskToTask childTaskId parentId now s) \<noteq> []
         \<and> last (prioritizedTaskIds (linkTaskToTask childTaskId parentId now s)) = childTaskId"
proof -
  let ?f = "\<lambda>t. if task_id t = childTaskId
                 then t\<lparr>parentTaskId := Some parentId, projectId := None\<rparr>
                 else if task_id t = parentId
                 then t\<lparr>completed := Some True,
                        completionDate :=
                          Some (effectiveCompletionDate (tasks s) parentId now)\<rparr>
                 else t"
  have t: "tasks (linkTaskToTask childTaskId parentId now s) = map ?f (tasks s)"
    by (simp add: linkTaskToTask_def Let_def)
  have idf: "\<And>t. task_id (?f t) = task_id t" by simp
  have pid: "task_id parentBefore = parentId"
    using pb find_SomeD unfolding findTask_def by fastforce
  have cid: "task_id childBefore = childTaskId"
    using cb find_SomeD unfolding findTask_def by fastforce
  have eff: "effectiveCompletionDate (tasks s) parentId now =
               (case completionDate parentBefore of None \<Rightarrow> now | Some d \<Rightarrow> d)"
    using pb by (simp add: effectiveCompletionDate_def findTask_def)
  have 1: "findTask parentId (tasks (linkTaskToTask childTaskId parentId now s))
             = Some (?f parentBefore)"
    unfolding t findTask_def
    using find_map_id [of ?f parentId "tasks s", OF idf] pb by (simp add: findTask_def)
  have 2: "findTask childTaskId (tasks (linkTaskToTask childTaskId parentId now s))
             = Some (?f childBefore)"
    unfolding t findTask_def
    using find_map_id [of ?f childTaskId "tasks s", OF idf] cb by (simp add: findTask_def)
  have 3: "prioritizedTaskIds (linkTaskToTask childTaskId parentId now s)
             = filter (\<lambda>i. i \<noteq> parentId) (prioritizedTaskIds s) @ [childTaskId]"
    by (simp add: linkTaskToTask_def Let_def)
  show ?thesis
    using ne pid cid eff unfolding 1 2 3 by auto
qed

theorem linkTaskToTask_postcondition_witness:
  "''c'' \<noteq> ''p''
   \<and> findTask ''p'' (tasks pairStore) = Some (demoTask ''p'' None None)
   \<and> findTask ''c'' (tasks pairStore) = Some (demoTask ''c'' None None)
   \<and> (\<exists>pa ca.
           findTask ''p'' (tasks (linkTaskToTask ''c'' ''p'' ''now'' pairStore)) = Some pa
         \<and> completed pa = Some True
         \<and> completionDate pa = Some ''now''
         \<and> findTask ''c'' (tasks (linkTaskToTask ''c'' ''p'' ''now'' pairStore)) = Some ca
         \<and> projectId ca = None \<and> parentTaskId ca = Some ''p''
         \<and> ''p'' \<notin> set (prioritizedTaskIds (linkTaskToTask ''c'' ''p'' ''now'' pairStore))
         \<and> prioritizedTaskIds (linkTaskToTask ''c'' ''p'' ''now'' pairStore) \<noteq> []
         \<and> last (prioritizedTaskIds (linkTaskToTask ''c'' ''p'' ''now'' pairStore)) = ''c'')"
proof -
  have ne: "''c'' \<noteq> ''p''" by simp
  have pb: "findTask ''p'' (tasks pairStore) = Some (demoTask ''p'' None None)"
    by (simp add: findTask_def pairStore_def)
  have cb: "findTask ''c'' (tasks pairStore) = Some (demoTask ''c'' None None)"
    by (simp add: findTask_def pairStore_def)
  from linkTaskToTask_postcondition [OF ne pb cb, of "''now''"] ne pb cb
  show ?thesis by simp
qed

text \<open>
  Linking a task under itself is no use of the operation (the card that links tests
  \<^verbatim>\<open>linkingTaskId !== task.id\<close> before the call): the branch of the child is taken
  first, so the task is not marked completed, and its identifier is appended to the
  priority list after being filtered out of it.
\<close>

lemma linkTaskToTask_self_link:
  "map completed (tasks (linkTaskToTask ''a'' ''a'' ''now'' singleStore)) = [Some False]
   \<and> prioritizedTaskIds (linkTaskToTask ''a'' ''a'' ''now'' singleStore) = [''a'']"
  by (simp add: singleStore_def linkTaskToTask_def Let_def)

subsection \<open>unlinkTask\<close>

lemma taskToUnlink_eq:
  "taskToUnlink eager pid tid ps =
     (if \<not> eager \<or> filter (\<lambda>p. project_id p = pid) ps = [] then None
      else find (\<lambda>t. task_id t = tid)
             (project_tasks (last (filter (\<lambda>p. project_id p = pid) ps))))"
  by (simp add: taskToUnlink_def Let_def)

lemma last_matching:
  assumes "filter (\<lambda>p. project_id p = pid) ps \<noteq> []"
  shows "last (filter (\<lambda>p. project_id p = pid) ps) \<in> set ps
         \<and> project_id (last (filter (\<lambda>p. project_id p = pid) ps)) = pid"
proof -
  have "last (filter (\<lambda>p. project_id p = pid) ps) \<in> set (filter (\<lambda>p. project_id p = pid) ps)"
    using assms by (rule last_in_set)
  then show ?thesis by simp
qed

lemma taskToUnlink_None:
  assumes a: "\<not> eager
              \<or> (\<forall>p\<in>set ps. project_id p = pid \<longrightarrow> tid \<notin> task_id ` set (project_tasks p))"
  shows "taskToUnlink eager pid tid ps = None"
proof (cases "\<not> eager \<or> filter (\<lambda>p. project_id p = pid) ps = []")
  case True
  then show ?thesis by (simp add: taskToUnlink_eq)
next
  case False
  then have ne: "filter (\<lambda>p. project_id p = pid) ps \<noteq> []" and e: eager
    by simp_all
  from last_matching [OF ne] a e
  have "tid \<notin> task_id ` set (project_tasks (last (filter (\<lambda>p. project_id p = pid) ps)))"
    by blast
  then have "find (\<lambda>t. task_id t = tid)
               (project_tasks (last (filter (\<lambda>p. project_id p = pid) ps))) = None"
    unfolding find_None_iff by blast
  then show ?thesis using False by (simp add: taskToUnlink_eq)
qed

lemma taskToUnlink_Some:
  assumes e: eager
    and a: "\<forall>p\<in>set ps. project_id p = pid \<longrightarrow> tid \<in> task_id ` set (project_tasks p)"
    and b: "\<exists>p\<in>set ps. project_id p = pid"
  shows "taskToUnlink eager pid tid ps \<noteq> None"
proof -
  have ne: "filter (\<lambda>p. project_id p = pid) ps \<noteq> []"
    using b by (simp add: filter_empty_conv)
  from last_matching [OF ne] a
  have "tid \<in> task_id ` set (project_tasks (last (filter (\<lambda>p. project_id p = pid) ps)))"
    by blast
  then have "find (\<lambda>t. task_id t = tid)
               (project_tasks (last (filter (\<lambda>p. project_id p = pid) ps))) \<noteq> None"
    unfolding find_None_iff by blast
  then show ?thesis using ne e by (simp add: taskToUnlink_eq)
qed

lemma unlinkTask_projects:
  "projects (unlinkTask eager pid tid s) =
     map (\<lambda>p. if project_id p = pid
              then p\<lparr>project_tasks := filter (\<lambda>t. task_id t \<noteq> tid) (project_tasks p)\<rparr>
              else p) (projects s)"
  by (simp add: unlinkTask_def)

lemma unlinkTask_cache:
  assumes "p \<in> set (projects (unlinkTask eager pid tid s))" and "project_id p = pid"
  shows "tid \<notin> task_id ` set (project_tasks p)"
proof -
  from assms(1) obtain q where q: "q \<in> set (projects s)"
    and p: "p = (if project_id q = pid
                 then q\<lparr>project_tasks := filter (\<lambda>t. task_id t \<noteq> tid) (project_tasks q)\<rparr>
                 else q)"
    unfolding unlinkTask_projects by auto
  show ?thesis
  proof (cases "project_id q = pid")
    case True
    then have "project_tasks p = filter (\<lambda>t. task_id t \<noteq> tid) (project_tasks q)"
      using p by simp
    then show ?thesis by auto
  next
    case False
    then have "p = q" using p by simp
    then show ?thesis using False assms(2) by simp
  qed
qed

lemma unlinkTask_tasks_Some:
  "taskToUnlink eager pid tid (projects s) \<noteq> None \<Longrightarrow>
   tasks (unlinkTask eager pid tid s) =
     map (\<lambda>t. if task_id t = tid then t\<lparr>projectId := None\<rparr> else t) (tasks s)"
  by (cases "taskToUnlink eager pid tid (projects s)") (simp_all add: unlinkTask_def)

lemma unlinkTask_tasks_None:
  "taskToUnlink eager pid tid (projects s) = None
     \<Longrightarrow> tasks (unlinkTask eager pid tid s) = tasks s"
  by (simp add: unlinkTask_def)

text \<open>
  Where \<^verbatim>\<open>unlinkTask\<close> does clear the link: when the updater of \<^verbatim>\<open>setProjects\<close>
  has run by the time of the test, the project exists and the task is in the cached list
  of every project with the identifier, every task of the flat list with the identifier
  of the task has a null \<^verbatim>\<open>projectId\<close> afterwards.
\<close>

lemma unlinkTask_clears:
  assumes ex: "\<exists>p\<in>set (projects s). project_id p = pid"
    and al: "\<forall>p\<in>set (projects s). project_id p = pid \<longrightarrow> tid \<in> task_id ` set (project_tasks p)"
    and t: "t \<in> set (tasks (unlinkTask True pid tid s))" and ti: "task_id t = tid"
  shows "projectId t = None"
proof -
  have ne: "taskToUnlink True pid tid (projects s) \<noteq> None"
    by (rule taskToUnlink_Some [OF TrueI al ex])
  have eq: "tasks (unlinkTask True pid tid s) =
              map (\<lambda>t. if task_id t = tid then t\<lparr>projectId := None\<rparr> else t) (tasks s)"
    by (rule unlinkTask_tasks_Some [OF ne])
  from t have "t \<in> (\<lambda>t. if task_id t = tid then t\<lparr>projectId := None\<rparr> else t) ` set (tasks s)"
    unfolding eq by simp
  then obtain u where u: "t = (if task_id u = tid then u\<lparr>projectId := None\<rparr> else u)"
    by (rule imageE)
  show ?thesis
  proof (cases "task_id u = tid")
    case True
    then show ?thesis using u by simp
  next
    case False
    then have "t = u" using u by simp
    then show ?thesis using False ti by simp
  qed
qed

text \<open>
  C9. unlinkTask postcondition. The claim fails on the flat task list. The task is
  absent from the cached list of the project afterwards, but the flat list is written
  under \<^verbatim>\<open>if (taskToUnlink)\<close>, a variable that the updater of \<^verbatim>\<open>setProjects\<close>
  assigns from the cached list: when the updater has not run by then, or the task was not
  in the cached list, the flat list is left as it was, and a task of the project keeps
  its \<^verbatim>\<open>projectId\<close>.
\<close>

theorem unlinkTask_keeps_projectId:
  assumes "\<not> eager
           \<or> (\<forall>p\<in>set (projects s).
                 project_id p = pid \<longrightarrow> tid \<notin> task_id ` set (project_tasks p))"
  shows "tasks (unlinkTask eager pid tid s) = tasks s
         \<and> (\<forall>p\<in>set (projects (unlinkTask eager pid tid s)).
                project_id p = pid \<longrightarrow> tid \<notin> task_id ` set (project_tasks p))"
proof (rule conjI)
  from assms have "taskToUnlink eager pid tid (projects s) = None"
    by (rule taskToUnlink_None)
  then show "tasks (unlinkTask eager pid tid s) = tasks s"
    by (rule unlinkTask_tasks_None)
next
  show "\<forall>p\<in>set (projects (unlinkTask eager pid tid s)).
          project_id p = pid \<longrightarrow> tid \<notin> task_id ` set (project_tasks p)"
    by (intro ballI impI) (rule unlinkTask_cache)
qed

theorem unlinkTask_keeps_projectId_witness:
  "map (\<lambda>t. (task_id t, projectId t)) (tasks cachedStore) = [(''t'', Some ''p'')]
   \<and> map (\<lambda>p. (project_id p, map task_id (project_tasks p))) (projects cachedStore)
       = [(''p'', [''t''])]
   \<and> map (\<lambda>t. (task_id t, projectId t)) (tasks (unlinkTask False ''p'' ''t'' cachedStore))
       = [(''t'', Some ''p'')]
   \<and> map (\<lambda>p. (project_id p, map task_id (project_tasks p)))
         (projects (unlinkTask False ''p'' ''t'' cachedStore)) = [(''p'', [])]
   \<and> list_all (\<lambda>p. project_id p = ''p'' \<longrightarrow> ''t'' \<notin> task_id ` set (project_tasks p))
         (projects staleStore)
   \<and> map (\<lambda>t. (task_id t, projectId t)) (tasks (unlinkTask True ''p'' ''t'' staleStore))
       = [(''t'', Some ''p'')]"
proof -
  have 1: "\<not> False
           \<or> (\<forall>p\<in>set (projects cachedStore).
                 project_id p = ''p'' \<longrightarrow> ''t'' \<notin> task_id ` set (project_tasks p))"
    by simp
  have 2: "\<forall>p\<in>set (projects staleStore).
             project_id p = ''p'' \<longrightarrow> ''t'' \<notin> task_id ` set (project_tasks p)"
    by (simp add: staleStore_def)
  have a: "tasks (unlinkTask False ''p'' ''t'' cachedStore) = tasks cachedStore"
    by (rule unlinkTask_keeps_projectId [OF 1, THEN conjunct1])
  have b: "tasks (unlinkTask True ''p'' ''t'' staleStore) = tasks staleStore"
    by (rule unlinkTask_keeps_projectId [OF disjI2 [OF 2], THEN conjunct1])
  have c: "map (\<lambda>t. (task_id t, projectId t)) (tasks cachedStore) = [(''t'', Some ''p'')]"
    by (simp add: cachedStore_def)
  have d: "map (\<lambda>p. (project_id p, map task_id (project_tasks p))) (projects cachedStore)
             = [(''p'', [''t''])]"
    by (simp add: cachedStore_def)
  have e: "map (\<lambda>p. (project_id p, map task_id (project_tasks p)))
             (projects (unlinkTask False ''p'' ''t'' cachedStore)) = [(''p'', [])]"
    by (simp add: unlinkTask_projects cachedStore_def)
  have f: "map (\<lambda>t. (task_id t, projectId t)) (tasks staleStore) = [(''t'', Some ''p'')]"
    by (simp add: staleStore_def)
  show ?thesis
    unfolding a b list_all_iff
    by (rule conjI [OF c conjI [OF d conjI [OF c conjI [OF e conjI [OF 2 f]]]]])
qed

subsection \<open>The displayed priority views\<close>


lemma map_of_find: "map_of (map (\<lambda>t. (g t, t)) xs) k = find (\<lambda>t. g t = k) xs"
  by (induction xs) auto

lemma tasksById_taskWithId: "tasksById ts i = taskWithId ts i"
  by (simp add: tasksById_def taskWithId_def rev_map map_of_find)

lemma projectsById_projectWithId: "projectsById ps i = projectWithId ps i"
  by (simp add: projectsById_def projectWithId_def rev_map map_of_find)

lemma carrierAt_nonempty: "carrierAt ts n i c \<Longrightarrow> i \<noteq> []"
  by (erule carrierAt.cases) simp_all

lemma carrierAt_truthy: "carrierAt ts n i c \<Longrightarrow> truthy_str (projectId c)"
  by (induction rule: carrierAt.induct) simp_all

lemma carrierAt_det:
  "carrierAt ts n i c \<Longrightarrow> carrierAt ts m i c' \<Longrightarrow> n = m \<and> c = c'"
proof (induction arbitrary: m c' rule: carrierAt.induct)
  case (here i t)
  from here.prems here.hyps show ?case
    by (cases rule: carrierAt.cases) simp_all
next
  case (up i t j n c)
  from up.prems show ?case
  proof (cases rule: carrierAt.cases)
    case (here)
    then show ?thesis using up.hyps by simp
  next
    case (up t' j' n')
    then have "carrierAt ts n' j c'" using up.hyps by simp
    from up.IH [OF this] up(1) show ?thesis by simp
  qed
qed

text \<open>The loop over the two objects finds the project that the nearest carrier names.\<close>

lemma loop_walk:
  assumes "carrierAt ts n i c"
    and "\<forall>v\<in>set visited. \<forall>m c'. carrierAt ts m v c' \<longrightarrow> n < m"
  shows "findRootProjectLoop inhT inhP ts ps visited (Some i) =
           (case projectId c of None \<Rightarrow> Absent
            | Some pid \<Rightarrow> objectLookup inhP (projectsById ps) pid)"
  using assms
proof (induction arbitrary: visited rule: carrierAt.induct)
  case (here i t)
  have nv: "i \<notin> set visited"
  proof
    assume "i \<in> set visited"
    with here.prems carrierAt.here [OF here.hyps] show False by blast
  qed
  have lk: "objectLookup inhT (tasksById ts) i = Own t"
    by (simp add: objectLookup_Own tasksById_taskWithId here.hyps)
  show ?case
    using here.hyps nv lk by simp
next
  case (up i t j n c)
  have ci: "carrierAt ts (Suc n) i c"
    by (rule carrierAt.up [OF up.hyps])
  have nv: "i \<notin> set visited"
  proof
    assume "i \<in> set visited"
    with up.prems ci show False by blast
  qed
  have lk: "objectLookup inhT (tasksById ts) i = Own t"
    by (simp add: objectLookup_Own tasksById_taskWithId up.hyps)
  have j: "j \<noteq> []"
    by (rule carrierAt_nonempty [OF up.hyps(5)])
  have inv: "\<forall>v\<in>set (visited @ [i]). \<forall>m c'. carrierAt ts m v c' \<longrightarrow> n < m"
  proof (intro ballI allI impI)
    fix v m c'
    assume v: "v \<in> set (visited @ [i])" and cm: "carrierAt ts m v c'"
    show "n < m"
    proof (cases "v = i")
      case True
      with carrierAt_det [OF ci] cm show ?thesis by auto
    next
      case False
      with v have "v \<in> set visited" by simp
      with up.prems cm have "Suc n < m" by blast
      then show ?thesis by simp
    qed
  qed
  have "findRootProjectLoop inhT inhP ts ps visited (Some i) =
          findRootProjectLoop inhT inhP ts ps (visited @ [i]) (Some j)"
    using up.hyps(1,3,4) nv lk j by simp
  also have "\<dots> = (case projectId c of None \<Rightarrow> Absent
                     | Some pid \<Rightarrow> objectLookup inhP (projectsById ps) pid)"
    by (rule up.IH [OF inv])
  finally show ?case .
qed

lemma loop_none:
  "(\<forall>i n c. currentId = Some i \<longrightarrow> \<not> carrierAt ts n i c) \<Longrightarrow>
   findRootProjectLoop inhT inhP ts ps visited currentId = Absent"
proof (induction inhT inhP ts ps visited currentId rule: findRootProjectLoop.induct)
  case (1 inhT inhP ts ps visited currentId)
  show ?case
  proof (cases currentId)
    case None
    then show ?thesis by simp
  next
    case (Some cur)
    show ?thesis
    proof (cases "cur = [] \<or> cur \<in> set visited")
      case True
      then show ?thesis using Some by auto
    next
      case False
      show ?thesis
      proof (cases "objectLookup inhT (tasksById ts) cur")
        case Absent
        then show ?thesis using Some False by simp
      next
        case Foreign
        then show ?thesis using Some False by simp
      next
        case (Own t)
        then have tw: "taskWithId ts cur = Some t"
          by (simp add: objectLookup_Own tasksById_taskWithId)
        have np: "\<not> truthy_str (projectId t)"
        proof
          assume "truthy_str (projectId t)"
          with tw False have "carrierAt ts 0 cur t"
            by (intro carrierAt.here) simp_all
          with "1.prems" Some show False by blast
        qed
        have nxt: "\<forall>i n c. (if truthy_str (parentTaskId t) then parentTaskId t else None) = Some i
                      \<longrightarrow> \<not> carrierAt ts n i c"
        proof (intro allI impI)
          fix i n c
          assume a: "(if truthy_str (parentTaskId t) then parentTaskId t else None) = Some i"
          then have p: "parentTaskId t = Some i"
            by (simp split: if_splits)
          show "\<not> carrierAt ts n i c"
          proof
            assume "carrierAt ts n i c"
            with tw np p False have "carrierAt ts (Suc n) cur c"
              by (intro carrierAt.up [of cur ts t i n c]) simp_all
            with "1.prems" Some show False by blast
          qed
        qed
        have "findRootProjectLoop inhT inhP ts ps (visited @ [cur])
                (if truthy_str (parentTaskId t) then parentTaskId t else None) = Absent"
          by (rule "1.IH" [OF Some False Own np nxt])
        then show ?thesis
          using Some False Own np by simp
      qed
    qed
  qed
qed

lemma findRootProject_Own:
  "findRootProject inhT inhP ts ps i = Own p \<longleftrightarrow> resolvedRoot ts ps i p"
proof
  assume a: "findRootProject inhT inhP ts ps i = Own p"
  show "resolvedRoot ts ps i p"
  proof (cases "\<exists>n c. carrierAt ts n i c")
    case True
    then obtain n c where c: "carrierAt ts n i c" by blast
    from carrierAt_truthy [OF c] obtain pid where pid: "projectId c = Some pid"
      by (cases "projectId c") simp_all
    from loop_walk [OF c, of "[]" inhT inhP ps] a pid
    have "projectWithId ps pid = Some p"
      by (simp add: findRootProject_def objectLookup_Own projectsById_projectWithId)
    with c pid show ?thesis
      unfolding resolvedRoot_def by blast
  next
    case False
    with loop_none [of "Some i" ts inhT inhP ps "[]"] a show ?thesis
      by (simp add: findRootProject_def)
  qed
next
  assume "resolvedRoot ts ps i p"
  then obtain n c pid where c: "carrierAt ts n i c" and pid: "projectId c = Some pid"
    and p: "projectWithId ps pid = Some p"
    unfolding resolvedRoot_def by blast
  from loop_walk [OF c, of "[]" inhT inhP ps] pid p
  show "findRootProject inhT inhP ts ps i = Own p"
    by (simp add: findRootProject_def objectLookup_Own projectsById_projectWithId)
qed





text \<open>The loop over the two maps is the loop over two objects that answer no inherited
  key.\<close>

lemma findRootLoop_object:
  "findRootLoop ts ps visited currentId =
     (case findRootProjectLoop (\<lambda>k. False) (\<lambda>k. False) ts ps visited currentId of
        Own p \<Rightarrow> Some p | Foreign \<Rightarrow> None | Absent \<Rightarrow> None)"
proof (induction ts ps visited currentId rule: findRootLoop.induct)
  case (1 ts ps visited currentId)
  show ?case
  proof (cases currentId)
    case None
    then show ?thesis by simp
  next
    case (Some cur)
    show ?thesis
    proof (cases "cur = [] \<or> cur \<in> set visited")
      case True
      then show ?thesis using Some by auto
    next
      case False
      show ?thesis
      proof (cases "tasksById ts cur")
        case None
        then show ?thesis using Some False by (simp add: objectLookup_def)
      next
        case (Some t)
        note t = Some
        show ?thesis
        proof (cases "truthy_str (projectId t)")
          case True
          then obtain pid where "projectId t = Some pid"
            by (cases "projectId t") simp_all
          then show ?thesis
            using \<open>currentId = Some cur\<close> False t True
            by (simp add: objectLookup_def split: option.splits)
        next
          case np: False
          from "1.IH" [OF \<open>currentId = Some cur\<close> False t np]
          show ?thesis
            using \<open>currentId = Some cur\<close> False t np by (simp add: objectLookup_def)
        qed
      qed
    qed
  qed
qed

lemma findRoot_Some: "findRoot ts ps i = Some p \<longleftrightarrow> resolvedRoot ts ps i p"
proof -
  have "findRoot ts ps i =
          (case findRootProject (\<lambda>k. False) (\<lambda>k. False) ts ps i of
             Own p \<Rightarrow> Some p | Foreign \<Rightarrow> None | Absent \<Rightarrow> None)"
    by (simp only: findRoot_def findRootProject_def findRootLoop_object)
  then show ?thesis
    using findRootProject_Own [of "\<lambda>k. False" "\<lambda>k. False" ts ps i p]
    by (cases "findRootProject (\<lambda>k. False) (\<lambda>k. False) ts ps i") auto
qed

lemma findRoot_None: "findRoot ts ps i = None \<longleftrightarrow> \<not> (\<exists>p. resolvedRoot ts ps i p)"
  using findRoot_Some [of ts ps i] by (cases "findRoot ts ps i") auto













lemma viewStore_views:
  "prioritizedDisplayOrder viewStore = [''k'', ''u'', ''g'', ''a'']"
  "map task_id (sortedTasks objectPrototypeKey objectPrototypeKey viewStore)
     = [''k'', ''u'', ''a'']"
  "filteredPrioritized objectPrototypeKey objectPrototypeKey viewStore = [''k'', ''a'']"
proof -
  show "prioritizedDisplayOrder viewStore = [''k'', ''u'', ''g'', ''a'']"
    by (simp add: prioritizedDisplayOrder_def viewStore_def array_from_set_def findRoot_def
          tasksById_def projectsById_def demoTask_def demoProject_def)
  show "map task_id (sortedTasks objectPrototypeKey objectPrototypeKey viewStore)
          = [''k'', ''u'', ''a'']"
    by (simp add: sortedTasks_def tasksForPrioritization_def findRootProjectForTask_def
          viewStore_def array_from_set_def objectLookup_def objectPrototypeKey_def
          objectPrototypeKeys_def tasksById_def projectsById_def demoTask_def demoProject_def
          List.map_filter_simps Let_def)
  show "filteredPrioritized objectPrototypeKey objectPrototypeKey viewStore = [''k'', ''a'']"
    by (simp add: filteredPrioritized_def findRootProject_def
          viewStore_def objectLookup_def objectPrototypeKey_def
          objectPrototypeKeys_def tasksById_def projectsById_def demoTask_def demoProject_def)
qed





text \<open>
  The priority view and the Dashboard also leave out a task whose \<^verbatim>\<open>projectId\<close>
  names no project but a member of \<^verbatim>\<open>Object.prototype\<close>: the lookup in the object of
  the projects answers with that member, which is truthy and has no \<^verbatim>\<open>status\<close>. The
  projects view, which looks up in a \<^verbatim>\<open>Map\<close>, shows the task.
\<close>

lemma priorityView_hides_inherited_key:
  "list_ex (\<lambda>t. task_id t = ''g'' \<and> projectId t = Some ''constructor''
                \<and> \<not> truthy_bool (completed t)) (tasks viewStore)
   \<and> \<not> (\<exists>p. resolvedRoot (tasks viewStore) (projects viewStore) ''g'' p)
   \<and> ''g'' \<in> set (prioritizedDisplayOrder viewStore)
   \<and> ''g'' \<notin> task_id ` set (sortedTasks objectPrototypeKey objectPrototypeKey viewStore)
   \<and> ''g'' \<notin> set (filteredPrioritized objectPrototypeKey objectPrototypeKey viewStore)"
proof -
  have "findRoot (tasks viewStore) (projects viewStore) ''g'' = None"
    by (simp add: findRoot_def tasksById_def projectsById_def viewStore_def demoTask_def
          demoProject_def)
  then have r: "\<not> (\<exists>p. resolvedRoot (tasks viewStore) (projects viewStore) ''g'' p)"
    by (rule findRoot_None [THEN iffD1])
  have "''g'' \<notin> set (map task_id (sortedTasks objectPrototypeKey objectPrototypeKey viewStore))"
    unfolding viewStore_views by simp
  then have v: "''g'' \<notin> task_id ` set (sortedTasks objectPrototypeKey objectPrototypeKey viewStore)"
    by simp
  show ?thesis
    using r v by (simp add: viewStore_views) (simp add: viewStore_def demoTask_def)
qed

subsection \<open>Traversals on cyclic data\<close>

lemma cycle_find:
  "find (\<lambda>t. task_id t = ''a'') (tasks cycleStore) = Some ta
     \<Longrightarrow> projectId ta = None \<and> parentTaskId ta = Some ''b''"
  "find (\<lambda>t. task_id t = ''b'') (tasks cycleStore) = Some tb
     \<Longrightarrow> projectId tb = None \<and> parentTaskId tb = Some ''a''"
  "find (\<lambda>t. task_id t = ''a'') (tasks cycleStore) \<noteq> None"
  "find (\<lambda>t. task_id t = ''b'') (tasks cycleStore) \<noteq> None"
  by (auto simp: cycleStore_def linkTaskToTask_def Let_def)

lemma cycle_search_aux:
  assumes "ancestorProjectSearch ts parentId = Some y"
  shows "ts = tasks cycleStore \<longrightarrow> parentId \<noteq> Some ''a'' \<and> parentId \<noteq> Some ''b''"
proof (rule ancestorProjectSearch.raw_induct
    [where P = "\<lambda>ts parentId y.
                  ts = tasks cycleStore \<longrightarrow> parentId \<noteq> Some ''a'' \<and> parentId \<noteq> Some ''b''",
      OF _ assms])
  fix search :: "real task list \<Rightarrow> string option \<Rightarrow> string option option"
    and ts :: "real task list" and parentId :: "string option" and y :: "string option"
  assume IH: "\<And>ts parentId y. search ts parentId = Some y \<Longrightarrow>
                ts = tasks cycleStore \<longrightarrow> parentId \<noteq> Some ''a'' \<and> parentId \<noteq> Some ''b''"
    and body: "(if truthy_str parentId
                then case find (\<lambda>t. Some (task_id t) = parentId) ts of
                       None \<Rightarrow> Some None
                     | Some parentTask \<Rightarrow>
                         if truthy_str (projectId parentTask) then Some (projectId parentTask)
                         else search ts (parentTaskId parentTask)
                else Some None) = Some y"
  show "ts = tasks cycleStore \<longrightarrow> parentId \<noteq> Some ''a'' \<and> parentId \<noteq> Some ''b''"
  proof (intro impI conjI notI)
    assume ts: "ts = tasks cycleStore" and p: "parentId = Some ''a''"
    from cycle_find(3) obtain ta
      where f: "find (\<lambda>t. task_id t = ''a'') (tasks cycleStore) = Some ta"
      by blast
    from cycle_find(1) [OF f] body have "search (tasks cycleStore) (Some ''b'') = Some y"
      unfolding ts p by (simp add: f)
    from IH [OF this] show False by simp
  next
    assume ts: "ts = tasks cycleStore" and p: "parentId = Some ''b''"
    from cycle_find(4) obtain tb
      where f: "find (\<lambda>t. task_id t = ''b'') (tasks cycleStore) = Some tb"
      by blast
    from cycle_find(2) [OF f] body have "search (tasks cycleStore) (Some ''a'') = Some y"
      unfolding ts p by (simp add: f)
    from IH [OF this] show False by simp
  qed
qed

lemma cycle_search: "ancestorProjectSearch (tasks cycleStore) (Some ''b'') = None"
proof (cases "ancestorProjectSearch (tasks cycleStore) (Some ''b'')")
  case None
  then show ?thesis .
next
  case (Some y)
  from cycle_search_aux [OF Some] show ?thesis by simp
qed

text \<open>
  C3. Traversal termination on corrupt data. The claim fails on the ancestor search of
  \<^verbatim>\<open>unlinkTaskFromParent\<close>, which keeps no visited set. On the store in which two
  tasks are linked under each other the breadth-first collection and the root
  resolution return, and \<^verbatim>\<open>unlinkTaskFromParent\<close> never leaves its loop.
\<close>

theorem unlinkTaskFromParent_diverges_on_cycle:
  "map (\<lambda>t. (task_id t, projectId t, parentTaskId t)) (tasks cycleStore)
     = [(''a'', None, Some ''b''), (''b'', None, Some ''a'')]
   \<and> getAllDescendantTaskIds [''a''] (tasks cycleStore) = [''a'', ''b'']
   \<and> findRoot (tasks cycleStore) (projects cycleStore) ''a'' = None
   \<and> findRootProject objectPrototypeKey objectPrototypeKey
         (tasks cycleStore) (projects cycleStore) ''a'' = Absent
   \<and> findRootProjectForTask objectPrototypeKey objectPrototypeKey
         (tasks cycleStore) (projects cycleStore) ''a'' = Absent
   \<and> unlinkTaskFromParent ''a'' cycleStore = None"
proof (intro conjI)
  show "map (\<lambda>t. (task_id t, projectId t, parentTaskId t)) (tasks cycleStore)
          = [(''a'', None, Some ''b''), (''b'', None, Some ''a'')]"
    by (simp add: cycleStore_def linkTaskToTask_def Let_def)
  show "getAllDescendantTaskIds [''a''] (tasks cycleStore) = [''a'', ''b'']"
    by (simp add: getAllDescendantTaskIds_def cycleStore_def linkTaskToTask_def Let_def)
  show "findRoot (tasks cycleStore) (projects cycleStore) ''a'' = None"
    by (simp add: findRoot_def tasksById_def cycleStore_def linkTaskToTask_def Let_def)
  show "findRootProject objectPrototypeKey objectPrototypeKey
          (tasks cycleStore) (projects cycleStore) ''a'' = Absent"
    by (simp add: findRootProject_def objectLookup_def tasksById_def cycleStore_def
          linkTaskToTask_def Let_def)
  show "findRootProjectForTask objectPrototypeKey objectPrototypeKey
          (tasks cycleStore) (projects cycleStore) ''a'' = Absent"
    by (simp add: findRootProjectForTask_def objectLookup_def tasksById_def cycleStore_def
          linkTaskToTask_def Let_def)
  from cycle_find(3) obtain ta
    where f: "find (\<lambda>t. task_id t = ''a'') (tasks cycleStore) = Some ta"
    by blast
  from cycle_find(1) [OF f] show "unlinkTaskFromParent ''a'' cycleStore = None"
    by (simp add: unlinkTaskFromParent_def f cycle_search)
qed

theorem unlinkTaskFromParent_diverges_on_cycle_witness:
  "perform (UnlinkTaskFromParent ''a'') cycleStore = None"
  using unlinkTaskFromParent_diverges_on_cycle by simp

subsection \<open>Breadth-first collection and the descendant closure\<close>

lemma bfs_sound:
  "set queue \<subseteq> descendantClosure seeds ts \<Longrightarrow> set allD \<subseteq> descendantClosure seeds ts
     \<Longrightarrow> set (getAllDescendantLoop ts queue visited allD) \<subseteq> descendantClosure seeds ts"
proof (induction ts queue visited allD rule: getAllDescendantLoop.induct)
  case (1 allTasks visited allDescendants)
  then show ?case by simp
next
  case (2 allTasks currentTaskId queue visited allDescendants)
  show ?case
  proof (cases "currentTaskId \<in> set visited")
    case True
    then show ?thesis using 2 by simp
  next
    case False
    have c: "currentTaskId \<in> descendantClosure seeds allTasks" using "2.prems"(1) by simp
    have kids: "set (filter (\<lambda>c. c \<notin> set (visited @ [currentTaskId]))
                   (map task_id (filter (\<lambda>t. parentTaskId t = Some currentTaskId) allTasks)))
                \<subseteq> descendantClosure seeds allTasks"
      using descendantClosure.child [OF c] by auto
    have q: "set (queue @ filter (\<lambda>c. c \<notin> set (visited @ [currentTaskId]))
                   (map task_id (filter (\<lambda>t. parentTaskId t = Some currentTaskId) allTasks)))
                \<subseteq> descendantClosure seeds allTasks"
      using kids "2.prems"(1) by simp
    have a: "set (allDescendants @ [currentTaskId]) \<subseteq> descendantClosure seeds allTasks"
      using c "2.prems"(2) by simp
    show ?thesis using "2.IH"(2) [OF False q a] False by simp
  qed
qed

lemma bfs_complete:
  "allD = visited \<Longrightarrow> childClosed ts (set visited) (set visited \<union> set queue)
     \<Longrightarrow> set visited \<union> set queue \<subseteq> set (getAllDescendantLoop ts queue visited allD)
         \<and> childClosed ts (set (getAllDescendantLoop ts queue visited allD))
              (set (getAllDescendantLoop ts queue visited allD))"
proof (induction ts queue visited allD rule: getAllDescendantLoop.induct)
  case (1 allTasks visited allDescendants)
  then show ?case by simp
next
  case (2 allTasks currentTaskId queue visited allDescendants)
  show ?case
  proof (cases "currentTaskId \<in> set visited")
    case True
    have "childClosed allTasks (set visited) (set visited \<union> set queue)"
      using "2.prems"(2) True unfolding childClosed_def by auto
    from "2.IH"(1) [OF True "2.prems"(1) this] True show ?thesis by auto
  next
    case False
    let ?q = "queue @ filter (\<lambda>c. c \<notin> set (visited @ [currentTaskId]))
                   (map task_id (filter (\<lambda>t. parentTaskId t = Some currentTaskId) allTasks))"
    have e: "allDescendants @ [currentTaskId] = visited @ [currentTaskId]"
      using "2.prems"(1) by simp
    have cc: "childClosed allTasks (set (visited @ [currentTaskId]))
                (set (visited @ [currentTaskId]) \<union> set ?q)"
      unfolding childClosed_def
    proof (intro ballI impI)
      fix a t assume a: "a \<in> set (visited @ [currentTaskId])" and t: "t \<in> set allTasks"
        and p: "parentTaskId t = Some a"
      show "task_id t \<in> set (visited @ [currentTaskId]) \<union> set ?q"
      proof (cases "a = currentTaskId")
        case True
        then show ?thesis using t p by auto
      next
        case False
        then have "a \<in> set visited" using a by simp
        then have "task_id t \<in> set visited \<union> set (currentTaskId # queue)"
          using "2.prems"(2) t p unfolding childClosed_def by blast
        then show ?thesis by auto
      qed
    qed
    from "2.IH"(2) [OF False e cc] False show ?thesis by auto
  qed
qed

lemma closure_subset:
  assumes "seeds \<subseteq> R" and "childClosed ts R R"
  shows "descendantClosure seeds ts \<subseteq> R"
proof
  fix i assume "i \<in> descendantClosure seeds ts"
  then show "i \<in> R"
  proof (induction rule: descendantClosure.induct)
    case (seed i)
    then show ?case using assms(1) by blast
  next
    case (child a t)
    then show ?case using assms(2) unfolding childClosed_def by blast
  qed
qed

lemma getAllDescendantTaskIds_closure:
  "set (getAllDescendantTaskIds startTaskIds ts) = descendantClosure (set startTaskIds) ts"
proof
  show "set (getAllDescendantTaskIds startTaskIds ts) \<subseteq> descendantClosure (set startTaskIds) ts"
    unfolding getAllDescendantTaskIds_def
    by (rule bfs_sound) (auto intro: descendantClosure.seed)
next
  have cc: "childClosed ts (set []) (set [] \<union> set startTaskIds)"
    by (simp add: childClosed_def)
  from bfs_complete [OF refl cc]
  show "descendantClosure (set startTaskIds) ts \<subseteq> set (getAllDescendantTaskIds startTaskIds ts)"
    unfolding getAllDescendantTaskIds_def
    by (intro closure_subset) auto
qed



lemma closure_ids:
  assumes "seeds \<subseteq> task_id ` set ts"
  shows "descendantClosure seeds ts \<subseteq> task_id ` set ts"
proof
  fix i
  assume "i \<in> descendantClosure seeds ts"
  then show "i \<in> task_id ` set ts"
    by (induction rule: descendantClosure.induct) (use assms in auto)
qed

lemma newPositionsOf_defined:
  assumes "i \<in> set idsToMove" and "i \<in> task_id ` set ts"
  shows "newPositionsOf idsToMove d ts i \<noteq> None"
proof -
  from assms obtain t where "t \<in> set ts" and "task_id t = i" by auto
  then have "i \<in> fst ` set (rev (map (\<lambda>t. (task_id t, translate (task_position t) d))
                                  (filter (\<lambda>t. task_id t \<in> set idsToMove) ts)))"
    using assms(1) by force
  then show ?thesis
    unfolding newPositionsOf_def by (simp add: map_of_eq_None_iff)
qed

text \<open>The lookup of \<^verbatim>\<open>moveTaskSubtree\<close> in \<^verbatim>\<open>newPositions\<close> is always defined.\<close>

lemma moveTaskSubtree_lookup_defined:
  assumes "find (\<lambda>t. task_id t = rootTaskId) ts = Some rootTask"
    and "i \<in> set (getAllDescendantTaskIds [rootTaskId] ts)"
  shows "newPositionsOf (getAllDescendantTaskIds [rootTaskId] ts) d ts i \<noteq> None"
proof -
  have "rootTaskId \<in> task_id ` set ts"
    using find_SomeD [OF assms(1)] by force
  then have "descendantClosure (set [rootTaskId]) ts \<subseteq> task_id ` set ts"
    by (intro closure_ids) simp
  then have "i \<in> task_id ` set ts"
    using assms(2) unfolding getAllDescendantTaskIds_closure by blast
  with assms(2) show ?thesis
    by (rule newPositionsOf_defined)
qed

subsection \<open>moveProjectGroup\<close>

lemma moveProjectGroup_tasks:
  assumes "find (\<lambda>p. project_id p = pid) (projects s) = Some p"
  shows "tasks (moveProjectGroup pid d s) =
           map (\<lambda>t. if task_id t \<in> descendantClosure
                         (task_id ` set (project_tasks p)
                            \<union> task_id ` {t \<in> set (tasks s). projectId t = Some pid}) (tasks s)
                    then t\<lparr>task_position :=
                           \<lparr> pos_x = pos_x (task_position t) + delta_dx d,
                             pos_y = pos_y (task_position t) + delta_dy d \<rparr>\<rparr>
                    else t) (tasks s)"
proof -
  have seeds: "set (array_from_set
                 (map task_id (project_tasks p) @
                  map task_id (filter (\<lambda>t. projectId t = Some pid) (tasks s))))
               = task_id ` set (project_tasks p)
                   \<union> task_id ` {t \<in> set (tasks s). projectId t = Some pid}"
    by auto
  show ?thesis
    using assms
    by (simp add: moveProjectGroup_def Let_def getAllDescendantTaskIds_closure seeds translate_def)
qed

lemma moveProjectGroup_projects:
  assumes "find (\<lambda>p. project_id p = pid) (projects s) = Some p"
  shows "map project_id (projects (moveProjectGroup pid d s)) = map project_id (projects s)"
    and "map project_position (projects (moveProjectGroup pid d s)) =
           map (\<lambda>q. if project_id q = pid
                    then \<lparr> pos_x = pos_x (project_position q) + delta_dx d,
                           pos_y = pos_y (project_position q) + delta_dy d \<rparr>
                    else project_position q) (projects s)"
  using assms by (simp_all add: moveProjectGroup_def Let_def translate_def)

text \<open>
  C6. \<^verbatim>\<open>moveProjectGroup\<close>, translation and frame. For a project present in the
  state, the operation adds the delta to the position of every project with that
  identifier and to the position of every task whose identifier is in the descendant
  closure of the project's direct child tasks (those of its cached list and those of the
  flat list that point at it); every other task is left as it is, and every other
  project keeps its position.
\<close>

theorem moveProjectGroup_translation:
  assumes "find (\<lambda>p. project_id p = pid) (projects s) = Some p"
  shows "tasks (moveProjectGroup pid d s) =
           map (\<lambda>t. if task_id t \<in> descendantClosure
                         (task_id ` set (project_tasks p)
                            \<union> task_id ` {t \<in> set (tasks s). projectId t = Some pid}) (tasks s)
                    then t\<lparr>task_position :=
                           \<lparr> pos_x = pos_x (task_position t) + delta_dx d,
                             pos_y = pos_y (task_position t) + delta_dy d \<rparr>\<rparr>
                    else t) (tasks s)
       \<and> map project_id (projects (moveProjectGroup pid d s)) = map project_id (projects s)
       \<and> map project_position (projects (moveProjectGroup pid d s)) =
           map (\<lambda>q. if project_id q = pid
                    then \<lparr> pos_x = pos_x (project_position q) + delta_dx d,
                           pos_y = pos_y (project_position q) + delta_dy d \<rparr>
                    else project_position q) (projects s)"
  by (intro conjI) (rule moveProjectGroup_tasks [OF assms], rule moveProjectGroup_projects(1) [OF assms],
      rule moveProjectGroup_projects(2) [OF assms])

lemma groupStore_closure:
  "descendantClosure
     (task_id ` set (project_tasks (demoProject ''p'' InProgress [demoTask ''t1'' (Some ''p'') None]))
        \<union> task_id ` {t \<in> set (tasks groupStore). projectId t = Some ''p''}) (tasks groupStore)
   = {''t1'', ''t2'', ''t3''}"
proof -
  have 1: "task_id ` {t \<in> set (tasks groupStore). projectId t = Some ''p''}
             = set (map task_id (filter (\<lambda>t. projectId t = Some ''p'') (tasks groupStore)))"
    by simp
  have 2: "task_id ` set (project_tasks (demoProject ''p'' InProgress [demoTask ''t1'' (Some ''p'') None]))
        \<union> task_id ` {t \<in> set (tasks groupStore). projectId t = Some ''p''}
        = set [''t1'', ''t3'']"
    unfolding 1 by (simp add: groupStore_def insert_commute)
  have 3: "descendantClosure (set [''t1'', ''t3'']) (tasks groupStore)
             = set (getAllDescendantTaskIds [''t1'', ''t3''] (tasks groupStore))"
    by (rule getAllDescendantTaskIds_closure [symmetric])
  have 4: "getAllDescendantTaskIds [''t1'', ''t3''] (tasks groupStore) = [''t1'', ''t3'', ''t2'']"
    by (simp add: getAllDescendantTaskIds_def groupStore_def)
  show ?thesis
    unfolding 2 3 4 by auto
qed

theorem moveProjectGroup_translation_witness:
  "find (\<lambda>p. project_id p = ''p'') (projects groupStore)
     = Some (demoProject ''p'' InProgress [demoTask ''t1'' (Some ''p'') None])
   \<and> map task_position (tasks (moveProjectGroup ''p'' \<lparr>delta_dx = 10, delta_dy = 5\<rparr> groupStore))
       = [\<lparr>pos_x = 10, pos_y = 5\<rparr>, \<lparr>pos_x = 10, pos_y = 5\<rparr>, \<lparr>pos_x = 10, pos_y = 5\<rparr>,
          \<lparr>pos_x = 0, pos_y = 0\<rparr>]
   \<and> map project_position (projects (moveProjectGroup ''p'' \<lparr>delta_dx = 10, delta_dy = 5\<rparr> groupStore))
       = [\<lparr>pos_x = 210, pos_y = 205\<rparr>, \<lparr>pos_x = 200, pos_y = 200\<rparr>]"
proof -
  have f: "find (\<lambda>p. project_id p = ''p'') (projects groupStore)
             = Some (demoProject ''p'' InProgress [demoTask ''t1'' (Some ''p'') None])"
    by (simp add: groupStore_def)
  note th = moveProjectGroup_translation [OF f, of "\<lparr>delta_dx = 10, delta_dy = 5\<rparr>"]
  have a: "map task_position (tasks (moveProjectGroup ''p'' \<lparr>delta_dx = 10, delta_dy = 5\<rparr> groupStore))
       = [\<lparr>pos_x = 10, pos_y = 5\<rparr>, \<lparr>pos_x = 10, pos_y = 5\<rparr>, \<lparr>pos_x = 10, pos_y = 5\<rparr>,
          \<lparr>pos_x = 0, pos_y = 0\<rparr>]"
    unfolding th [THEN conjunct1] groupStore_closure
    by (simp add: groupStore_def demoTask_def)
  have b: "map project_position (projects (moveProjectGroup ''p'' \<lparr>delta_dx = 10, delta_dy = 5\<rparr> groupStore))
       = [\<lparr>pos_x = 210, pos_y = 205\<rparr>, \<lparr>pos_x = 200, pos_y = 200\<rparr>]"
    unfolding th [THEN conjunct2, THEN conjunct2]
    by (simp add: groupStore_def demoProject_def)
  show ?thesis by (rule conjI [OF f conjI [OF a b]])
qed

subsection \<open>finishProject then reactivateProject\<close>












subsection \<open>Auto-arrange\<close>

lemma set_sort_insert: "set (sort_insert cmp a xs) = insert a (set xs)"
  by (induction xs) auto

lemma set_js_sort: "set (js_sort cmp xs) = set xs"
  unfolding js_sort_def by (induction xs) (simp_all add: set_sort_insert)

lemma sorted_sort_insert:
  assumes total: "\<And>a b. cmp a b \<le> 0 \<or> cmp b a \<le> 0"
    and trans: "\<And>a b c. cmp a b \<le> 0 \<Longrightarrow> cmp b c \<le> 0 \<Longrightarrow> cmp a c \<le> 0"
  shows "sorted_wrt (\<lambda>a b. cmp a b \<le> 0) xs \<Longrightarrow> sorted_wrt (\<lambda>a b. cmp a b \<le> 0) (sort_insert cmp a xs)"
proof (induction xs)
  case Nil
  then show ?case by simp
next
  case (Cons b bs)
  show ?case
  proof (cases "cmp a b \<le> 0")
    case True
    then show ?thesis using Cons.prems trans by auto
  next
    case False
    then have "cmp b a \<le> 0" using total [of a b] by simp
    then show ?thesis using False Cons by (auto simp: set_sort_insert)
  qed
qed

lemma sorted_js_sort:
  assumes total: "\<And>a b. cmp a b \<le> 0 \<or> cmp b a \<le> 0"
    and trans: "\<And>a b c. cmp a b \<le> 0 \<Longrightarrow> cmp b c \<le> 0 \<Longrightarrow> cmp a c \<le> 0"
  shows "sorted_wrt (\<lambda>a b. cmp a b \<le> 0) (js_sort cmp xs)"
  unfolding js_sort_def
  by (induction xs) (simp_all add: sorted_sort_insert [OF total trans])

lemma mset_sort_insert: "mset (sort_insert cmp a xs) = add_mset a (mset xs)"
  by (induction xs) auto

lemma mset_js_sort: "mset (js_sort cmp xs) = mset xs"
  unfolding js_sort_def by (induction xs) (simp_all add: mset_sort_insert)

lemma taskSorter_titleThenId: "(taskSorter lc a b \<le> 0) = titleThenId lc a b"
  by (auto simp: taskSorter_def titleThenId_def)

lemma threeWay_flip:
  assumes "threeWay lc" and "0 \<le> lc x y"
  shows "lc y x \<le> 0"
proof (rule ccontr)
  assume "\<not> lc y x \<le> 0"
  then have "0 < lc y x" by simp
  then have "lc x y < 0" using assms(1) unfolding threeWay_def by blast
  with assms(2) show False by simp
qed

lemma threeWay_trans:
  "threeWay lc \<Longrightarrow> lc x y \<le> 0 \<Longrightarrow> lc y z \<le> 0 \<Longrightarrow> lc x z \<le> 0"
  unfolding threeWay_def by blast

lemma threeWay_strict:
  assumes l: "threeWay lc" and a: "lc x y < 0 \<or> lc y z < 0"
    and b: "lc x y \<le> 0" and c: "lc y z \<le> 0"
  shows "lc x z < 0"
proof (rule ccontr)
  assume "\<not> lc x z < 0"
  then have zx: "lc z x \<le> 0"
    using threeWay_flip [OF l, of x z] by simp
  have yx: "lc y x \<le> 0"
    by (rule threeWay_trans [OF l c zx])
  have zy: "lc z y \<le> 0"
    by (rule threeWay_trans [OF l zx b])
  from a show False
  proof
    assume "lc x y < 0"
    then have "0 < lc y x" using l unfolding threeWay_def by blast
    with yx show False by simp
  next
    assume "lc y z < 0"
    then have "0 < lc z y" using l unfolding threeWay_def by blast
    with zy show False by simp
  qed
qed

lemma threeWay_zero:
  assumes l: "threeWay lc" and a: "lc x y = 0"
  shows "lc y x = 0"
proof -
  have "lc y x \<le> 0" using threeWay_flip [OF l, of x y] a by simp
  moreover have "\<not> lc y x < 0"
  proof
    assume "lc y x < 0"
    then have "0 < lc x y" using l unfolding threeWay_def by blast
    with a show False by simp
  qed
  ultimately show ?thesis by simp
qed

lemma titleThenId_total:
  assumes l: "threeWay lc"
  shows "titleThenId lc a b \<or> titleThenId lc b a"
proof (cases "lc (task_title a) (task_title b) < 0")
  case True
  then show ?thesis unfolding titleThenId_def by simp
next
  case False
  show ?thesis
  proof (cases "lc (task_title a) (task_title b) = 0")
    case True
    note z = threeWay_zero [OF l True]
    have "lc (task_id a) (task_id b) \<le> 0 \<or> lc (task_id b) (task_id a) \<le> 0"
      using threeWay_flip [OF l, of "task_id a" "task_id b"] by linarith
    with True z show ?thesis unfolding titleThenId_def by auto
  next
    case ne: False
    with False have "0 < lc (task_title a) (task_title b)" by simp
    then have "lc (task_title b) (task_title a) < 0"
      using l unfolding threeWay_def by blast
    then show ?thesis unfolding titleThenId_def by simp
  qed
qed

lemma titleThenId_trans:
  assumes l: "threeWay lc" and ab: "titleThenId lc a b" and bc: "titleThenId lc b c"
  shows "titleThenId lc a c"
proof -
  have t1: "lc (task_title a) (task_title b) \<le> 0" and t2: "lc (task_title b) (task_title c) \<le> 0"
    using ab bc unfolding titleThenId_def by auto
  show ?thesis
  proof (cases "lc (task_title a) (task_title b) < 0 \<or> lc (task_title b) (task_title c) < 0")
    case True
    from threeWay_strict [OF l True t1 t2] show ?thesis
      unfolding titleThenId_def by simp
  next
    case False
    then have z1: "lc (task_title a) (task_title b) = 0" and z2: "lc (task_title b) (task_title c) = 0"
      using t1 t2 by simp_all
    then have i1: "lc (task_id a) (task_id b) \<le> 0" and i2: "lc (task_id b) (task_id c) \<le> 0"
      using ab bc unfolding titleThenId_def by auto
    have le: "lc (task_title a) (task_title c) \<le> 0"
      by (rule threeWay_trans [OF l t1 t2])
    have "lc (task_title c) (task_title a) \<le> 0"
      using threeWay_trans [OF l, of "task_title c" "task_title b" "task_title a"]
        threeWay_zero [OF l z1] threeWay_zero [OF l z2] by simp
    then have "\<not> lc (task_title a) (task_title c) < 0"
      using l unfolding threeWay_def by (metis not_less)
    with le have "lc (task_title a) (task_title c) = 0" by simp
    moreover have "lc (task_id a) (task_id c) \<le> 0"
      by (rule threeWay_trans [OF l i1 i2])
    ultimately show ?thesis
      unfolding titleThenId_def by simp
  qed
qed

lemma titleThenId_antisym:
  assumes l: "threeWay lc" and ab: "titleThenId lc a b" and ba: "titleThenId lc b a"
  shows "lc (task_id a) (task_id b) = 0"
proof -
  have anti: "\<And>x y. lc x y < 0 \<Longrightarrow> 0 < lc y x"
    using l unfolding threeWay_def by blast
  have "\<not> lc (task_title a) (task_title b) < 0"
    using anti [of "task_title a" "task_title b"] ba unfolding titleThenId_def by auto
  then have "lc (task_id a) (task_id b) \<le> 0"
    using ab unfolding titleThenId_def by auto
  moreover have "\<not> lc (task_title b) (task_title a) < 0"
    using anti [of "task_title b" "task_title a"] ab unfolding titleThenId_def by auto
  then have "lc (task_id b) (task_id a) \<le> 0"
    using ba unfolding titleThenId_def by auto
  ultimately show ?thesis
    using anti [of "task_id a" "task_id b"] by (cases "lc (task_id a) (task_id b) < 0") auto
qed

lemma sorted_js_titleThenId:
  assumes "threeWay lc"
  shows "sorted_wrt (titleThenId lc) (js_sort (taskSorter lc) xs)"
proof -
  have "sorted_wrt (\<lambda>a b. taskSorter lc a b \<le> 0) (js_sort (taskSorter lc) xs)"
    by (rule sorted_js_sort)
       (simp_all only: taskSorter_titleThenId titleThenId_total [OF assms],
        erule (1) titleThenId_trans [OF assms])
  then show ?thesis
    by (simp only: taskSorter_titleThenId)
qed

text \<open>Two sorted lists with the same elements are the same list when the order tells
  the elements apart.\<close>

lemma sorted_unique:
  "sorted_wrt R xs \<Longrightarrow> sorted_wrt R ys \<Longrightarrow> mset xs = mset ys
     \<Longrightarrow> (\<forall>a\<in>set xs. \<forall>b\<in>set xs. R a b \<longrightarrow> R b a \<longrightarrow> a = b) \<Longrightarrow> xs = ys"
proof (induction xs arbitrary: ys)
  case Nil
  then show ?case by simp
next
  case (Cons x xs)
  from Cons.prems(3) have "ys \<noteq> []" by auto
  then obtain y ys' where ys: "ys = y # ys'" by (cases ys) auto
  have sets: "set (x # xs) = set (y # ys')"
    using Cons.prems(3) ys by (metis mset_eq_setD)
  have xy: "x = y"
  proof (rule ccontr)
    assume ne: "x \<noteq> y"
    then have "x \<in> set ys'" and "y \<in> set xs" using sets by auto
    then have "R y x" and "R x y"
      using Cons.prems(1,2) ys by auto
    moreover have "y \<in> set (x # xs)" using sets by auto
    ultimately have "x = y" using Cons.prems(4) by auto
    with ne show False by simp
  qed
  then have "mset xs = mset ys'"
    using Cons.prems(3) ys by simp
  moreover have "sorted_wrt R xs" and "sorted_wrt R ys'"
    using Cons.prems(1,2) ys by simp_all
  moreover have "\<forall>a\<in>set xs. \<forall>b\<in>set xs. R a b \<longrightarrow> R b a \<longrightarrow> a = b"
    using Cons.prems(4) by simp
  ultimately have "xs = ys'"
    by (intro Cons.IH)
  with xy ys show ?case by simp
qed

lemma rowsOf_pos: "1 \<le> rowsOf tr"
proof (induction tr)
  case (Subtree t ks)
  show ?case
  proof (cases ks)
    case Nil
    then show ?thesis by simp
  next
    case (Cons k ks')
    have "\<forall>k\<in>set ks'. 0 \<le> rowsOf k"
      using Subtree.IH Cons by fastforce
    then have "0 \<le> sum_list (map rowsOf ks')"
      by (intro sum_list_nonneg) auto
    moreover have "1 \<le> rowsOf k"
      using Subtree.IH Cons by simp
    ultimately show ?thesis using Cons by simp
  qed
qed

lemma height_below: "k \<in> set ks \<Longrightarrow> height k \<le> foldr max (map height ks) 0"
  by (induction ks) auto

lemma map_of_map_set: "map_of (map_set k v m) = (map_of m)(k \<mapsto> v)"
  by (induction m) auto

lemma map_set_fresh: "k \<notin> fst ` set m \<Longrightarrow> map_set k v m = m @ [(k, v)]"
  by (induction m) auto

lemma setAll_Nil [simp]: "setAll [] m = m"
  by (simp add: setAll_def)

lemma setAll_Cons [simp]: "setAll (e # es) m = setAll es (map_set (fst e) (snd e) m)"
  by (simp add: setAll_def)

lemma setAll_append [simp]: "setAll (xs @ ys) m = setAll ys (setAll xs m)"
  by (simp add: setAll_def)

lemma setAll_fresh:
  "distinct (map fst es) \<Longrightarrow> fst ` set es \<inter> fst ` set m = {} \<Longrightarrow> setAll es m = m @ es"
proof (induction es arbitrary: m)
  case Nil
  then show ?case by simp
next
  case (Cons e es)
  have f: "fst e \<notin> fst ` set m" using Cons.prems(2) by auto
  have m: "map_set (fst e) (snd e) m = m @ [e]"
    using map_set_fresh [OF f, of "snd e"] by simp
  have "fst ` set es \<inter> fst ` set (m @ [e]) = {}"
    using Cons.prems by auto
  with Cons.IH [of "m @ [e]"] Cons.prems(1) show ?case
    by (simp add: m)
qed

text \<open>The rows of a subtree depend on the identifier at its top only.\<close>

lemma rows_det:
  "unfolds K a \<Longrightarrow> unfolds K b \<Longrightarrow> task_id (topTask a) = task_id (topTask b) \<Longrightarrow> rowsOf a = rowsOf b"
proof (induction a arbitrary: b)
  case (Subtree t ks)
  obtain t' ks' where b: "b = Subtree t' ks'" by (cases b)
  have tops: "map topTask ks = map topTask ks'"
    using Subtree.prems b by simp
  then have len: "length ks = length ks'"
    by (rule map_eq_imp_length_eq)
  have "map rowsOf ks = map rowsOf ks'"
  proof (rule nth_equalityI)
    show "length (map rowsOf ks) = length (map rowsOf ks')" using len by simp
  next
    fix i
    assume "i < length (map rowsOf ks)"
    then have i: "i < length ks" and i': "i < length ks'" using len by simp_all
    have "topTask (ks ! i) = topTask (ks' ! i)"
      using tops i i' by (metis nth_map)
    then have e: "task_id (topTask (ks ! i)) = task_id (topTask (ks' ! i))"
      by simp
    have m: "ks ! i \<in> set ks" using i by simp
    have m': "ks' ! i \<in> set ks'" using i' by simp
    have u: "unfolds K (ks ! i)"
      using Subtree.prems(1) m by simp
    have u': "unfolds K (ks' ! i)"
      using Subtree.prems(2) m' unfolding b by simp
    have "rowsOf (ks ! i) = rowsOf (ks' ! i)"
      by (rule Subtree.IH [OF m u u' e])
    then show "map rowsOf ks ! i = map rowsOf ks' ! i"
      using i i' by simp
  qed
  moreover have "ks = [] \<longleftrightarrow> ks' = []" using len by auto
  ultimately show ?case using b by simp
qed

lemma cacheOk_hit:
  "cacheOk K cache \<Longrightarrow> map_of cache (task_id (topTask tr)) = Some r \<Longrightarrow> unfolds K tr
     \<Longrightarrow> r = rowsOf tr"
  unfolding cacheOk_def by blast

lemma cacheOk_set:
  assumes ok: "cacheOk K cache" and u: "unfolds K tr"
  shows "cacheOk K (map_set (task_id (topTask tr)) (rowsOf tr) cache)"
  unfolding cacheOk_def map_of_map_set
proof (intro allI impI)
  fix i r u'
  assume a: "((map_of cache)(task_id (topTask tr) \<mapsto> rowsOf tr)) i = Some r"
    and b: "unfolds K u' \<and> task_id (topTask u') = i"
  show "rowsOf u' = r"
  proof (cases "i = task_id (topTask tr)")
    case True
    then have "r = rowsOf tr" using a by simp
    moreover have "rowsOf u' = rowsOf tr"
      using rows_det [of K u' tr] b u True by simp
    ultimately show ?thesis by simp
  next
    case False
    then have "map_of cache i = Some r" using a by simp
    with ok b show ?thesis unfolding cacheOk_def by blast
  qed
qed

text \<open>\<^verbatim>\<open>getSubtreeRows\<close> computes the rows of the specification, with enough fuel.\<close>

lemma sum_sim:
  assumes IH: "\<And>tr cache. unfolds K tr \<Longrightarrow> cacheOk K cache \<Longrightarrow> height tr \<le> fuel \<Longrightarrow>
      \<exists>cache'. getSubtreeRows fuel K (task_id (topTask tr)) cache = Some (rowsOf tr, cache')
        \<and> cacheOk K cache' \<and> map_of cache \<subseteq>\<^sub>m map_of cache'
        \<and> task_id (topTask tr) \<in> dom (map_of cache')"
  shows "(\<forall>k\<in>set ks. unfolds K k \<and> height k \<le> fuel) \<Longrightarrow> cacheOk K cache \<Longrightarrow>
      \<exists>cache'. sumSubtreeRows fuel K (map topTask ks) acc cache
                  = Some (acc + sum_list (map rowsOf ks), cache')
        \<and> cacheOk K cache' \<and> map_of cache \<subseteq>\<^sub>m map_of cache'"
proof (induction ks arbitrary: acc cache)
  case Nil
  then show ?case by simp
next
  case (Cons k ks)
  from IH [of k cache] Cons.prems obtain c1
    where g: "getSubtreeRows fuel K (task_id (topTask k)) cache = Some (rowsOf k, c1)"
      and ok1: "cacheOk K c1" and le1: "map_of cache \<subseteq>\<^sub>m map_of c1"
    by auto
  from Cons.IH [of c1 "acc + rowsOf k"] Cons.prems(1) ok1 obtain c2
    where s: "sumSubtreeRows fuel K (map topTask ks) (acc + rowsOf k) c1
                = Some (acc + rowsOf k + sum_list (map rowsOf ks), c2)"
      and ok2: "cacheOk K c2" and le2: "map_of c1 \<subseteq>\<^sub>m map_of c2"
    by auto
  have "sumSubtreeRows fuel K (map topTask (k # ks)) acc cache
          = Some (acc + sum_list (map rowsOf (k # ks)), c2)"
    using g s by (simp add: add.assoc)
  moreover have "map_of cache \<subseteq>\<^sub>m map_of c2"
    by (rule map_le_trans [OF le1 le2])
  ultimately show ?case using ok2 by blast
qed

lemma rows_sim:
  "unfolds K tr \<Longrightarrow> cacheOk K cache \<Longrightarrow> height tr \<le> fuel \<Longrightarrow>
     \<exists>cache'. getSubtreeRows fuel K (task_id (topTask tr)) cache = Some (rowsOf tr, cache')
       \<and> cacheOk K cache' \<and> map_of cache \<subseteq>\<^sub>m map_of cache'
       \<and> task_id (topTask tr) \<in> dom (map_of cache')"
proof (induction fuel arbitrary: tr cache)
  case 0
  then show ?case by (cases tr) simp
next
  case (Suc fuel)
  obtain t ks where tr: "tr = Subtree t ks" by (cases tr)
  show ?case
  proof (cases "map_of cache (task_id t)")
    case (Some r)
    then have "r = rowsOf tr"
      using cacheOk_hit [OF Suc.prems(2), of tr r] Suc.prems(1) tr by simp
    then have "getSubtreeRows (Suc fuel) K (task_id (topTask tr)) cache = Some (rowsOf tr, cache)"
      using Some tr by simp
    moreover have "task_id (topTask tr) \<in> dom (map_of cache)"
      using Some tr by auto
    ultimately show ?thesis
      using Suc.prems(2) by (intro exI [of _ cache]) simp
  next
    case None
    have kids: "K (task_id t) = map topTask ks"
      using Suc.prems(1) tr by simp
    have sub: "\<forall>k\<in>set ks. unfolds K k \<and> height k \<le> fuel"
    proof
      fix k assume k: "k \<in> set ks"
      have "height k \<le> foldr max (map height ks) 0" by (rule height_below [OF k])
      then have "height k \<le> fuel" using Suc.prems(3) tr by simp
      moreover have "unfolds K k" using Suc.prems(1) tr k by simp
      ultimately show "unfolds K k \<and> height k \<le> fuel" by simp
    qed
    let ?new = "map_set (task_id t) (rowsOf tr)"
    have fresh: "\<And>c. map_of cache \<subseteq>\<^sub>m map_of c \<Longrightarrow> map_of cache \<subseteq>\<^sub>m map_of (?new c)"
      using None by (auto simp: map_le_def map_of_map_set dom_def)
    have inDom: "\<And>c. task_id (topTask tr) \<in> dom (map_of (?new c))"
      using tr by (simp add: map_of_map_set)
    show ?thesis
    proof (cases "ks = []")
      case True
      then have "getSubtreeRows (Suc fuel) K (task_id (topTask tr)) cache
                   = Some (rowsOf tr, ?new cache)"
        using None kids tr by simp
      moreover have "cacheOk K (?new cache)"
        using cacheOk_set [OF Suc.prems(2) Suc.prems(1)] tr by simp
      moreover have "map_of cache \<subseteq>\<^sub>m map_of (?new cache)"
        by (rule fresh) simp
      ultimately show ?thesis using inDom by blast
    next
      case False
      from sum_sim [of K fuel ks cache 0, OF Suc.IH] sub Suc.prems(2) obtain c1
        where s: "sumSubtreeRows fuel K (map topTask ks) 0 cache
                    = Some (sum_list (map rowsOf ks), c1)"
          and ok1: "cacheOk K c1" and le1: "map_of cache \<subseteq>\<^sub>m map_of c1"
        by auto
      have rows: "rowsOf tr = sum_list (map rowsOf ks)"
        using False tr by simp
      have "1 \<le> sum_list (map rowsOf ks)"
        using rowsOf_pos [of tr] rows by simp
      then have mx: "max (sum_list (map rowsOf ks)) 1 = rowsOf tr"
        using rows by simp
      have "getSubtreeRows (Suc fuel) K (task_id (topTask tr)) cache
              = Some (rowsOf tr, ?new c1)"
        using None kids tr False s mx by simp
      moreover have "cacheOk K (?new c1)"
        using cacheOk_set [OF ok1 Suc.prems(1)] tr by simp
      moreover have "map_of cache \<subseteq>\<^sub>m map_of (?new c1)"
        by (rule fresh [OF le1])
      ultimately show ?thesis using inDom by blast
    qed
  qed
qed

lemma dom_mono: "m \<subseteq>\<^sub>m m' \<Longrightarrow> A \<subseteq> dom m \<Longrightarrow> A \<subseteq> dom m'"
  using map_le_implies_dom_le by blast

text \<open>\<^verbatim>\<open>assign\<close> places a subtree as the specification does, with enough fuel.\<close>

lemma kids_sim:
  assumes IH: "\<And>tr depth start rd cache.
      unfolds K tr \<Longrightarrow> cacheOk K cache \<Longrightarrow> height tr \<le> rf \<Longrightarrow> height tr \<le> fuel \<Longrightarrow>
      \<exists>cache'. assign rf fuel K (topTask tr) depth start rd cache
                  = Some (setAll (place tr depth start) rd, cache')
        \<and> cacheOk K cache' \<and> map_of cache \<subseteq>\<^sub>m map_of cache'
        \<and> set (idsOf tr) \<subseteq> dom (map_of cache')"
  shows "(\<forall>k\<in>set ks. unfolds K k \<and> height k \<le> rf \<and> height k \<le> fuel) \<Longrightarrow> cacheOk K cache \<Longrightarrow>
      \<exists>cache'. assignKids rf fuel K (map topTask ks) depth s rd cache
                  = Some (setAll (stack ks depth s) rd, cache')
        \<and> cacheOk K cache' \<and> map_of cache \<subseteq>\<^sub>m map_of cache'
        \<and> (\<forall>k\<in>set ks. set (idsOf k) \<subseteq> dom (map_of cache'))"
proof (induction ks arbitrary: s rd cache)
  case Nil
  then show ?case by simp
next
  case (Cons k ks)
  have k: "unfolds K k" "height k \<le> rf" "height k \<le> fuel"
    using Cons.prems(1) by simp_all
  from rows_sim [OF k(1) Cons.prems(2) k(2)] obtain c1
    where g: "getSubtreeRows rf K (task_id (topTask k)) cache = Some (rowsOf k, c1)"
      and ok1: "cacheOk K c1" and le1: "map_of cache \<subseteq>\<^sub>m map_of c1"
    by blast
  from IH [OF k(1) ok1 k(2) k(3), of depth s rd] obtain c2
    where a: "assign rf fuel K (topTask k) depth s rd c1
                = Some (setAll (place k depth s) rd, c2)"
      and ok2: "cacheOk K c2" and le2: "map_of c1 \<subseteq>\<^sub>m map_of c2"
      and d2: "set (idsOf k) \<subseteq> dom (map_of c2)"
    by blast
  have rest: "\<forall>k\<in>set ks. unfolds K k \<and> height k \<le> rf \<and> height k \<le> fuel"
    using Cons.prems(1) by simp
  from Cons.IH [OF rest ok2, of "s + rowsOf k" "setAll (place k depth s) rd"] obtain c3
    where r: "assignKids rf fuel K (map topTask ks) depth (s + rowsOf k)
                (setAll (place k depth s) rd) c2
                = Some (setAll (stack ks depth (s + rowsOf k)) (setAll (place k depth s) rd), c3)"
      and ok3: "cacheOk K c3" and le3: "map_of c2 \<subseteq>\<^sub>m map_of c3"
      and d3: "\<forall>k\<in>set ks. set (idsOf k) \<subseteq> dom (map_of c3)"
    by blast
  have "assignKids rf fuel K (map topTask (k # ks)) depth s rd cache
          = Some (setAll (stack (k # ks) depth s) rd, c3)"
    using g a r by simp
  moreover have "map_of cache \<subseteq>\<^sub>m map_of c3"
    by (rule map_le_trans [OF le1 map_le_trans [OF le2 le3]])
  moreover have "\<forall>k\<in>set (k # ks). set (idsOf k) \<subseteq> dom (map_of c3)"
    using d3 dom_mono [OF le3 d2] by simp
  ultimately show ?case using ok3 by blast
qed

lemma assign_sim:
  "unfolds K tr \<Longrightarrow> cacheOk K cache \<Longrightarrow> height tr \<le> rf \<Longrightarrow> height tr \<le> fuel \<Longrightarrow>
     \<exists>cache'. assign rf fuel K (topTask tr) depth start rd cache
                 = Some (setAll (place tr depth start) rd, cache')
       \<and> cacheOk K cache' \<and> map_of cache \<subseteq>\<^sub>m map_of cache'
       \<and> set (idsOf tr) \<subseteq> dom (map_of cache')"
proof (induction fuel arbitrary: tr depth start rd cache)
  case 0
  then show ?case by (cases tr) simp
next
  case (Suc fuel)
  obtain t ks where tr: "tr = Subtree t ks" by (cases tr)
  from rows_sim [OF Suc.prems(1) Suc.prems(2) Suc.prems(3)] obtain c1
    where g: "getSubtreeRows rf K (task_id t) cache = Some (rowsOf tr, c1)"
      and ok1: "cacheOk K c1" and le1: "map_of cache \<subseteq>\<^sub>m map_of c1"
      and d1: "task_id t \<in> dom (map_of c1)"
    unfolding tr by auto
  have kids: "K (task_id t) = map topTask ks"
    using Suc.prems(1) tr by simp
  have sub: "\<forall>k\<in>set ks. unfolds K k \<and> height k \<le> rf \<and> height k \<le> fuel"
  proof
    fix k assume k: "k \<in> set ks"
    have h: "height k \<le> foldr max (map height ks) 0" by (rule height_below [OF k])
    have "height k \<le> fuel" using h Suc.prems(4) tr by simp
    moreover have "height k \<le> rf" using h Suc.prems(3) tr by simp
    moreover have "unfolds K k" using Suc.prems(1) tr k by simp
    ultimately show "unfolds K k \<and> height k \<le> rf \<and> height k \<le> fuel" by simp
  qed
  let ?rd = "map_set (task_id t) (start + (rowsOf tr - 1) div 2, depth) rd"
  from kids_sim [of K rf fuel ks c1 "depth + 1" start ?rd, OF Suc.IH sub ok1] obtain c2
    where a: "assignKids rf fuel K (map topTask ks) (depth + 1) start ?rd c1
                = Some (setAll (stack ks (depth + 1) start) ?rd, c2)"
      and ok2: "cacheOk K c2" and le2: "map_of c1 \<subseteq>\<^sub>m map_of c2"
      and d2: "\<forall>k\<in>set ks. set (idsOf k) \<subseteq> dom (map_of c2)"
    by blast
  have "assign rf (Suc fuel) K (topTask tr) depth start rd cache
          = Some (setAll (place tr depth start) rd, c2)"
    using g kids a unfolding tr by simp
  moreover have "map_of cache \<subseteq>\<^sub>m map_of c2"
    by (rule map_le_trans [OF le1 le2])
  moreover have "set (idsOf tr) \<subseteq> dom (map_of c2)"
    using d2 dom_mono [OF le2, of "{task_id t}"] d1 unfolding tr by auto
  ultimately show ?case using ok2 by blast
qed

lemma roots_sim:
  "(\<forall>r\<in>set trs. unfolds K r \<and> height r \<le> fuel) \<Longrightarrow> cacheOk K cache \<Longrightarrow>
     \<exists>cache'. assignRoots fuel K (map topTask trs) cur rd cache
                 = Some (rootBands trs cur, setAll (placeRoots trs cur) rd, cache')
       \<and> cacheOk K cache' \<and> map_of cache \<subseteq>\<^sub>m map_of cache'
       \<and> (\<forall>r\<in>set trs. set (idsOf r) \<subseteq> dom (map_of cache'))"
proof (induction trs arbitrary: cur rd cache)
  case Nil
  then show ?case by simp
next
  case (Cons r trs)
  have r: "unfolds K r" "height r \<le> fuel"
    using Cons.prems(1) by simp_all
  from rows_sim [OF r(1) Cons.prems(2) r(2)] obtain c1
    where g: "getSubtreeRows fuel K (task_id (topTask r)) cache = Some (rowsOf r, c1)"
      and ok1: "cacheOk K c1" and le1: "map_of cache \<subseteq>\<^sub>m map_of c1"
    by blast
  from assign_sim [OF r(1) ok1 r(2) r(2), of 1 cur rd] obtain c2
    where a: "assign fuel fuel K (topTask r) 1 cur rd c1
                = Some (setAll (place r 1 cur) rd, c2)"
      and ok2: "cacheOk K c2" and le2: "map_of c1 \<subseteq>\<^sub>m map_of c2"
      and d2: "set (idsOf r) \<subseteq> dom (map_of c2)"
    by blast
  have rest: "\<forall>r\<in>set trs. unfolds K r \<and> height r \<le> fuel"
    using Cons.prems(1) by simp
  from Cons.IH [OF rest ok2, of "cur + rowsOf r + 1" "setAll (place r 1 cur) rd"] obtain c3
    where s: "assignRoots fuel K (map topTask trs) (cur + rowsOf r + 1)
                (setAll (place r 1 cur) rd) c2
                = Some (rootBands trs (cur + rowsOf r + 1),
                        setAll (placeRoots trs (cur + rowsOf r + 1)) (setAll (place r 1 cur) rd),
                        c3)"
      and ok3: "cacheOk K c3" and le3: "map_of c2 \<subseteq>\<^sub>m map_of c3"
      and d3: "\<forall>r\<in>set trs. set (idsOf r) \<subseteq> dom (map_of c3)"
    by blast
  have "assignRoots fuel K (map topTask (r # trs)) cur rd cache
          = Some (rootBands (r # trs) cur, setAll (placeRoots (r # trs) cur) rd, c3)"
    using g a s by simp
  moreover have "map_of cache \<subseteq>\<^sub>m map_of c3"
    by (rule map_le_trans [OF le1 map_le_trans [OF le2 le3]])
  moreover have "\<forall>r\<in>set (r # trs). set (idsOf r) \<subseteq> dom (map_of c3)"
    using d3 dom_mono [OF le3 d2] by simp
  ultimately show ?case using ok3 by blast
qed

lemma fst_place:
  fixes tr :: "'n subtree" and ks :: "'n subtree list"
  shows "map fst (place tr depth s) = idsOf tr"
    and "map fst (stack ks depth s) = concat (map idsOf ks)"
  by (induction tr depth s and ks depth s rule: place_stack.induct) simp_all

lemma fst_placeRoots: "map fst (placeRoots trs s) = concat (map idsOf trs)"
  by (induction trs arbitrary: s) (simp_all add: fst_place(1))

lemma rootBands_sum: "rootBands trs s = s + sum_list (map rowsOf trs) + int (length trs)"
  by (induction trs arbitrary: s) simp_all

lemma rowsOf_nonneg: "0 \<le> rowsOf tr"
  using rowsOf_pos [of tr] by simp

lemma sum_rows_pos: "trs \<noteq> [] \<Longrightarrow> 1 \<le> sum_list (map rowsOf trs)"
proof (induction trs)
  case Nil
  then show ?case by simp
next
  case (Cons r trs)
  have "0 \<le> sum_list (map rowsOf trs)"
    by (rule sum_list_nonneg) (auto simp: rowsOf_nonneg)
  then show ?case using rowsOf_pos [of r] by simp
qed

lemma totalRows_forest:
  "totalRowsOf (rootBands trs 0) =
     (if trs = [] then 0 else sum_list (map rowsOf trs) + (int (length trs) - 1))"
proof (cases "trs = []")
  case True
  then show ?thesis by (simp add: totalRowsOf_def)
next
  case False
  from sum_rows_pos [OF False] have "0 < sum_list (map rowsOf trs) + int (length trs)"
    by linarith
  then show ?thesis using False by (simp add: totalRowsOf_def rootBands_sum)
qed

lemma unfolds_subtrees: "unfolds K tr \<Longrightarrow> u \<in> set (subtrees tr) \<Longrightarrow> unfolds K u"
  by (induction tr) auto

lemma subtrees_ids: "u \<in> set (subtrees tr) \<Longrightarrow> task_id (topTask u) \<in> set (idsOf tr)"
  by (induction tr) auto

lemma sorted_wrt_filter: "sorted_wrt R xs \<Longrightarrow> sorted_wrt R (filter P xs)"
  by (induction xs) auto

lemma kidsInProject_sorted:
  assumes total: "\<And>a b :: 'n task. taskSorter lc a b \<le> 0 \<or> taskSorter lc b a \<le> 0"
    and trans: "\<And>a b c :: 'n task. taskSorter lc a b \<le> 0 \<Longrightarrow> taskSorter lc b c \<le> 0 \<Longrightarrow> taskSorter lc a c \<le> 0"
  shows "sorted_wrt (\<lambda>a b. taskSorter lc a b \<le> 0) (kidsInProject lc (ts :: 'n task list) inProjectSet k)"
  unfolding kidsInProject_def
  by (rule sorted_wrt_filter, rule sorted_js_sort [OF total trans])

lemma kidsInProject_set:
  "set (kidsInProject lc ts inProjectSet k) =
     {c \<in> set ts. parentTaskId c = Some k \<and> k \<noteq> [] \<and> task_id c \<in> set inProjectSet}"
  unfolding kidsInProject_def childrenByParent_def by (auto simp: set_js_sort)

lemma dfs_complete:
  "(\<forall>a\<in>set seen. \<forall>t\<in>set (childrenByParent ts a). task_id t \<in> set seen \<union> task_id ` set pending)
     \<Longrightarrow> set seen \<union> task_id ` set pending \<subseteq> set (collectDescendants ts pending seen)
         \<and> (\<forall>a\<in>set (collectDescendants ts pending seen). \<forall>t\<in>set (childrenByParent ts a).
                task_id t \<in> set (collectDescendants ts pending seen))"
proof (induction ts pending seen rule: collectDescendants.induct)
  case (1 ts inProjectSet)
  then show ?case by simp
next
  case (2 ts t pending inProjectSet)
  show ?case
  proof (cases "task_id t \<in> set inProjectSet")
    case True
    have "\<forall>a\<in>set inProjectSet. \<forall>c\<in>set (childrenByParent ts a).
            task_id c \<in> set inProjectSet \<union> task_id ` set pending"
    proof (intro ballI)
      fix a c
      assume "a \<in> set inProjectSet" and "c \<in> set (childrenByParent ts a)"
      then have "task_id c \<in> set inProjectSet \<union> task_id ` set (t # pending)"
        using "2.prems" by blast
      then show "task_id c \<in> set inProjectSet \<union> task_id ` set pending"
        using True by auto
    qed
    from "2.IH"(1) [OF True this] True show ?thesis by auto
  next
    case False
    have "\<forall>a\<in>set (inProjectSet @ [task_id t]). \<forall>c\<in>set (childrenByParent ts a).
            task_id c \<in> set (inProjectSet @ [task_id t])
                          \<union> task_id ` set (childrenByParent ts (task_id t) @ pending)"
    proof (intro ballI)
      fix a c
      assume a: "a \<in> set (inProjectSet @ [task_id t])" and c: "c \<in> set (childrenByParent ts a)"
      show "task_id c \<in> set (inProjectSet @ [task_id t])
                          \<union> task_id ` set (childrenByParent ts (task_id t) @ pending)"
      proof (cases "a = task_id t")
        case True
        then show ?thesis using c by auto
      next
        case False
        then have "a \<in> set inProjectSet" using a by simp
        then have "task_id c \<in> set inProjectSet \<union> task_id ` set (t # pending)"
          using "2.prems" c by blast
        then show ?thesis by auto
      qed
    qed
    from "2.IH"(2) [OF False this] False show ?thesis by auto
  qed
qed

lemma collectDescendants_roots:
  "r \<in> set roots \<Longrightarrow> task_id r \<in> set (collectDescendants ts roots [])"
  using dfs_complete [of "[]" ts roots] by auto

lemma collectDescendants_child:
  "a \<in> set (collectDescendants ts roots []) \<Longrightarrow> c \<in> set (childrenByParent ts a)
     \<Longrightarrow> task_id c \<in> set (collectDescendants ts roots [])"
  using dfs_complete [of "[]" ts roots] by auto


lemma top_in_ids: "task_id (topTask k) \<in> set (idsOf k)"
  by (cases k) simp

lemma ids_heads:
  "distinct (concat (map idsOf ks)) \<Longrightarrow>
     distinct (map (\<lambda>k. task_id (topTask k)) ks) \<and> (\<forall>k\<in>set ks. distinct (idsOf k))"
proof (induction ks)
  case Nil
  then show ?case by simp
next
  case (Cons k ks)
  have d: "distinct (idsOf k)" "distinct (concat (map idsOf ks))"
    and dis: "set (idsOf k) \<inter> set (concat (map idsOf ks)) = {}"
    using Cons.prems by simp_all
  have "task_id (topTask k) \<notin> (\<lambda>k. task_id (topTask k)) ` set ks"
  proof
    assume "task_id (topTask k) \<in> (\<lambda>k. task_id (topTask k)) ` set ks"
    then obtain k' where k': "k' \<in> set ks" and e: "task_id (topTask k) = task_id (topTask k')"
      by auto
    have "task_id (topTask k') \<in> set (concat (map idsOf ks))"
      using k' top_in_ids [of k'] by auto
    with e dis top_in_ids [of k] show False by auto
  qed
  with Cons.IH [OF d(2)] d(1) show ?case by simp
qed

lemma children_spec:
  "childrenByParent ts i = filter (\<lambda>c. i \<noteq> [] \<and> parentTaskId c = Some i) ts"
  unfolding childrenByParent_def by (rule filter_cong) auto

text \<open>The sorted list of the code is the list of the forest.\<close>

lemma tellsApart_subset: "tellsApart lc ys \<Longrightarrow> set xs \<subseteq> set ys \<Longrightarrow> tellsApart lc xs"
  unfolding tellsApart_def by blast

lemma heads_subset: "set (map (\<lambda>k. task_id (topTask k)) ks) \<subseteq> set (concat (map idsOf ks))"
  using top_in_ids by fastforce

lemma sorted_kids:
  assumes l: "threeWay lc"
    and m: "mset (map topTask ks) = mset xs"
    and s: "sorted_wrt (titleThenId lc) (map topTask ks)"
    and d: "distinct (map (\<lambda>k. task_id (topTask k)) ks)"
    and ta: "tellsApart lc (map (\<lambda>k. task_id (topTask k)) ks)"
  shows "js_sort (taskSorter lc) xs = map topTask ks"
proof -
  have "distinct (map task_id (map topTask ks))"
    using d by (simp add: comp_def)
  then have inj: "inj_on task_id (set (map topTask ks))"
    unfolding distinct_map by (rule conjunct2)
  have anti: "\<forall>a\<in>set (map topTask ks). \<forall>b\<in>set (map topTask ks).
                titleThenId lc a b \<longrightarrow> titleThenId lc b a \<longrightarrow> a = b"
  proof (intro ballI impI)
    fix a b
    assume a: "a \<in> set (map topTask ks)" and b: "b \<in> set (map topTask ks)"
      and ab: "titleThenId lc a b" and ba: "titleThenId lc b a"
    have z: "lc (task_id a) (task_id b) = 0"
      by (rule titleThenId_antisym [OF l ab ba])
    have "task_id a \<in> set (map (\<lambda>k. task_id (topTask k)) ks)"
      and "task_id b \<in> set (map (\<lambda>k. task_id (topTask k)) ks)"
      using a b by auto
    with ta z have e: "task_id a = task_id b"
      unfolding tellsApart_def by blast
    show "a = b"
      by (rule inj_onD [OF inj e a b])
  qed
  have "mset (map topTask ks) = mset (js_sort (taskSorter lc) xs)"
    using m by (simp add: mset_js_sort)
  from sorted_unique [OF s sorted_js_titleThenId [OF l] this anti]
  show ?thesis by simp
qed

lemma forest_unfolds:
  assumes l: "threeWay lc"
    and cl: "\<forall>a\<in>set inP. \<forall>c\<in>set (childrenByParent ts a). task_id c \<in> set inP"
  shows "subtreeOf lc ts tr \<Longrightarrow> distinct (idsOf tr) \<Longrightarrow> tellsApart lc (idsOf tr)
           \<Longrightarrow> task_id (topTask tr) \<in> set inP \<Longrightarrow> unfolds (kidsInProject lc ts inP) tr"
proof (induction tr)
  case (Subtree t ks)
  have m: "mset (map topTask ks) = mset (childrenByParent ts (task_id t))"
    using Subtree.prems(1) by (simp add: children_spec)
  have s: "sorted_wrt (titleThenId lc) (map topTask ks)"
    using Subtree.prems(1) by simp
  have dc: "distinct (concat (map idsOf ks))"
    using Subtree.prems(2) by simp
  have tc: "tellsApart lc (concat (map idsOf ks))"
    by (rule tellsApart_subset [OF Subtree.prems(3)]) auto
  note heads = ids_heads [OF dc]
  have th: "tellsApart lc (map (\<lambda>k. task_id (topTask k)) ks)"
    by (rule tellsApart_subset [OF tc heads_subset])
  have js: "js_sort (taskSorter lc) (childrenByParent ts (task_id t)) = map topTask ks"
    by (rule sorted_kids [OF l m s heads [THEN conjunct1] th])
  have t: "task_id t \<in> set inP"
    using Subtree.prems(4) by simp
  have inside: "\<forall>c\<in>set (map topTask ks). task_id c \<in> set inP"
  proof
    fix c assume "c \<in> set (map topTask ks)"
    then have "c \<in> set (childrenByParent ts (task_id t))"
      using js set_js_sort [of "taskSorter lc" "childrenByParent ts (task_id t)"] by simp
    with cl t show "task_id c \<in> set inP" by blast
  qed
  then have kids: "kidsInProject lc ts inP (task_id t) = map topTask ks"
    unfolding kidsInProject_def js by (simp add: filter_id_conv)
  have "\<forall>k\<in>set ks. unfolds (kidsInProject lc ts inP) k"
  proof
    fix k assume k: "k \<in> set ks"
    have 1: "subtreeOf lc ts k" using Subtree.prems(1) k by simp
    have 2: "distinct (idsOf k)" using heads k by simp
    have 3: "tellsApart lc (idsOf k)"
      by (rule tellsApart_subset [OF tc]) (use k in auto)
    have 4: "task_id (topTask k) \<in> set inP" using inside k by simp
    show "unfolds (kidsInProject lc ts inP) k"
      by (rule Subtree.IH [OF k 1 2 3 4])
  qed
  with kids show ?case by simp
qed

text \<open>
  The layout of two roots, the first with two leaf children and the second with one, for
  any \<^verbatim>\<open>localeCompare\<close>: what matters is the order in which the sort leaves the
  roots and the children.
\<close>

lemma arrange_example:
  assumes roots: "js_sort (taskSorter lc) (arrangeRoots pid ts) = [R1, R2]"
    and kids1: "js_sort (taskSorter lc) (childrenByParent ts (task_id R1)) = [A, B]"
    and kids2: "js_sort (taskSorter lc) (childrenByParent ts (task_id R2)) = [C]"
    and leafA: "childrenByParent ts (task_id A) = []"
    and leafB: "childrenByParent ts (task_id B) = []"
    and leafC: "childrenByParent ts (task_id C) = []"
    and dist: "distinct [task_id R1, task_id R2, task_id A, task_id B, task_id C]"
  shows "arrangeGrid (Suc (Suc fuel)) lc pid ts =
           Some (5,
                 [(task_id R1, 0, 1), (task_id A, 0, 2), (task_id B, 1, 2),
                  (task_id R2, 3, 1), (task_id C, 3, 2)],
                 [(task_id A, 1), (task_id B, 1), (task_id R1, 2),
                  (task_id C, 1), (task_id R2, 1)])"
proof -
  let ?inSet = "collectDescendants ts (arrangeRoots pid ts) []"
  let ?K = "kidsInProject lc ts ?inSet"
  have ne: "task_id R1 \<noteq> task_id R2" "task_id R1 \<noteq> task_id A" "task_id R1 \<noteq> task_id B" "task_id R1 \<noteq> task_id C" "task_id R2 \<noteq> task_id R1" "task_id R2 \<noteq> task_id A" "task_id R2 \<noteq> task_id B" "task_id R2 \<noteq> task_id C" "task_id A \<noteq> task_id R1" "task_id A \<noteq> task_id R2" "task_id A \<noteq> task_id B" "task_id A \<noteq> task_id C" "task_id B \<noteq> task_id R1" "task_id B \<noteq> task_id R2" "task_id B \<noteq> task_id A" "task_id B \<noteq> task_id C" "task_id C \<noteq> task_id R1" "task_id C \<noteq> task_id R2" "task_id C \<noteq> task_id A" "task_id C \<noteq> task_id B"
    using dist by auto
  have "set (arrangeRoots pid ts) = set [R1, R2]"
    using set_js_sort [of "taskSorter lc" "arrangeRoots pid ts"] roots by simp
  then have r1: "task_id R1 \<in> set ?inSet" and r2: "task_id R2 \<in> set ?inSet"
    by (simp_all add: collectDescendants_roots)
  have "set (childrenByParent ts (task_id R1)) = set [A, B]"
    using set_js_sort [of "taskSorter lc" "childrenByParent ts (task_id R1)"] kids1 by simp
  then have a: "task_id A \<in> set ?inSet" and b: "task_id B \<in> set ?inSet"
    using collectDescendants_child [OF r1] by simp_all
  have "set (childrenByParent ts (task_id R2)) = set [C]"
    using set_js_sort [of "taskSorter lc" "childrenByParent ts (task_id R2)"] kids2 by simp
  then have c: "task_id C \<in> set ?inSet"
    using collectDescendants_child [OF r2] by simp
  have k1: "?K (task_id R1) = [A, B]"
    using a b by (simp add: kidsInProject_def kids1)
  have k2: "?K (task_id R2) = [C]"
    using c by (simp add: kidsInProject_def kids2)
  have kA: "?K (task_id A) = []"
    by (simp add: kidsInProject_def leafA js_sort_def)
  have kB: "?K (task_id B) = []"
    by (simp add: kidsInProject_def leafB js_sort_def)
  have kC: "?K (task_id C) = []"
    by (simp add: kidsInProject_def leafC js_sort_def)
  have g: "arrangeGrid (Suc (Suc fuel)) lc pid ts = assignRoots (Suc (Suc fuel)) ?K [R1, R2] 0 [] []"
    by (simp only: arrangeGrid_def roots Let_def)
  show ?thesis
    unfolding g by (simp add: k1 k2 kA kB kC ne)
qed

lemma codeCompare_anti: "(codeCompare x y < 0) = (0 < codeCompare y x)"
  by (induction x y rule: codeCompare.induct) auto

lemma codeCompare_eq: "codeCompare x y = 0 \<Longrightarrow> x = y"
  by (induction x y rule: codeCompare.induct) (auto split: if_splits)

lemma codeCompare_trans:
  "codeCompare x y \<le> 0 \<Longrightarrow> codeCompare y z \<le> 0 \<Longrightarrow> codeCompare x z \<le> 0"
proof (induction x z arbitrary: y rule: codeCompare.induct)
  case 1
  then show ?case by simp
next
  case (2 b bs)
  then show ?case by simp
next
  case (3 a as)
  then show ?case by (cases y) (auto split: if_splits)
next
  case (4 a as b bs)
  then show ?case
    by (cases y) (auto split: if_splits)
qed

lemma threeWay_codeCompare: "threeWay codeCompare"
  unfolding threeWay_def
  using codeCompare_anti codeCompare_trans by blast

lemma tellsApart_codeCompare: "tellsApart codeCompare ids"
  unfolding tellsApart_def using codeCompare_eq by blast

text \<open>
  C7. Auto-arrange row assignment. Let the tasks of the project be the forest \<open>trs\<close>
  (\<open>forestOf\<close>): the roots are the tasks linked to the project that have no parent, the
  children of a task are the tasks whose \<^verbatim>\<open>parentTaskId\<close> is its identifier, roots
  and children stand in title-then-identifier order, and no identifier occurs twice. If
  \<^verbatim>\<open>localeCompare\<close> is a three-way comparison that tells the identifiers of the
  forest apart, then with the height of the forest as fuel \<^verbatim>\<open>autoArrangeProjectTasks\<close> ends with
  \<^verbatim>\<open>rowDepthById\<close> holding exactly the placement of the specification
  (\<open>placeRoots\<close>): each task at row \<open>bandStart + floor ((rows - 1) / 2)\<close>, the roots at
  depth 1 with one row between their bands, the children of a task one level deeper and
  stacked within its band in title-then-identifier order; the cache holds for every task
  its rows, one for a leaf and the sum of the rows of the children otherwise; and the
  total of rows is the sum of the rows of the roots and one row between each two of
  them. For the roots \<open>R1\<close> with two leaf children and \<open>R2\<close> with one leaf child this
  is: rows 2 and 1, a total of 4 rows, \<open>R1\<close> at row 0 with its children at rows 0 and
  1, and the band of \<open>R2\<close> starting at row 3.
\<close>

theorem autoArrange_row_assignment:
  fixes ts :: "'n task list"
  assumes l: "threeWay lc"
    and f: "forestOf lc pid ts trs"
    and d: "distinct (concat (map idsOf trs))"
    and ta: "tellsApart lc (concat (map idsOf trs))"
    and h: "\<forall>tr\<in>set trs. height tr \<le> fuel"
  shows "(\<exists>cache. arrangeGrid fuel lc pid ts = Some (rootBands trs 0, placeRoots trs 0, cache)
            \<and> (\<forall>u\<in>set (concat (map subtrees trs)).
                   map_of cache (task_id (topTask u)) = Some (rowsOf u)))
       \<and> totalRowsOf (rootBands trs 0) =
           (if trs = [] then 0 else sum_list (map rowsOf trs) + (int (length trs) - 1))"
proof (rule conjI)
  let ?inP = "collectDescendants ts (arrangeRoots pid ts) []"
  let ?K = "kidsInProject lc ts ?inP"
  have m: "mset (map topTask trs) = mset (arrangeRoots pid ts)"
    using f unfolding forestOf_def arrangeRoots_def by simp
  have s: "sorted_wrt (titleThenId lc) (map topTask trs)"
    using f unfolding forestOf_def by simp
  note heads = ids_heads [OF d]
  have th: "tellsApart lc (map (\<lambda>k. task_id (topTask k)) trs)"
    by (rule tellsApart_subset [OF ta heads_subset])
  have roots: "js_sort (taskSorter lc) (arrangeRoots pid ts) = map topTask trs"
    by (rule sorted_kids [OF l m s heads [THEN conjunct1] th])
  have cl: "\<forall>a\<in>set ?inP. \<forall>c\<in>set (childrenByParent ts a). task_id c \<in> set ?inP"
    using collectDescendants_child by blast
  have u: "\<forall>r\<in>set trs. unfolds ?K r \<and> height r \<le> fuel"
  proof
    fix r assume r: "r \<in> set trs"
    have "topTask r \<in> set (map topTask trs)" using r by simp
    then have "topTask r \<in> set (arrangeRoots pid ts)"
      using mset_eq_setD [OF m] by simp
    then have 3: "task_id (topTask r) \<in> set ?inP"
      by (rule collectDescendants_roots)
    have 1: "subtreeOf lc ts r" using f r unfolding forestOf_def by simp
    have 2: "distinct (idsOf r)" using heads r by simp
    have 4: "tellsApart lc (idsOf r)"
      by (rule tellsApart_subset [OF ta]) (use r in auto)
    have "unfolds ?K r"
      by (rule forest_unfolds [OF l cl 1 2 4 3])
    with h r show "unfolds ?K r \<and> height r \<le> fuel" by simp
  qed
  have ok: "cacheOk ?K []"
    by (simp add: cacheOk_def)
  from roots_sim [OF u ok, of 0 "[]"] obtain c
    where a: "assignRoots fuel ?K (map topTask trs) 0 [] []
                = Some (rootBands trs 0, setAll (placeRoots trs 0) [], c)"
      and okc: "cacheOk ?K c"
      and dom: "\<forall>r\<in>set trs. set (idsOf r) \<subseteq> dom (map_of c)"
    by blast
  have "setAll (placeRoots trs 0) [] = [] @ placeRoots trs 0"
    by (rule setAll_fresh) (simp_all add: fst_placeRoots d)
  then have g: "arrangeGrid fuel lc pid ts = Some (rootBands trs 0, placeRoots trs 0, c)"
    using a by (simp only: arrangeGrid_def Let_def roots append_Nil)
  have "\<forall>u\<in>set (concat (map subtrees trs)). map_of c (task_id (topTask u)) = Some (rowsOf u)"
  proof
    fix v assume "v \<in> set (concat (map subtrees trs))"
    then obtain r where r: "r \<in> set trs" and v: "v \<in> set (subtrees r)"
      by auto
    have uv: "unfolds ?K v"
      using unfolds_subtrees [OF _ v] u r by simp
    have "task_id (topTask v) \<in> dom (map_of c)"
      using subtrees_ids [OF v] dom r by blast
    then obtain n where n: "map_of c (task_id (topTask v)) = Some n"
      by blast
    from cacheOk_hit [OF okc n uv] n
    show "map_of c (task_id (topTask v)) = Some (rowsOf v)" by simp
  qed
  with g show "\<exists>cache. arrangeGrid fuel lc pid ts = Some (rootBands trs 0, placeRoots trs 0, cache)
            \<and> (\<forall>u\<in>set (concat (map subtrees trs)).
                   map_of cache (task_id (topTask u)) = Some (rowsOf u))"
    by blast
next
  show "totalRowsOf (rootBands trs 0) =
           (if trs = [] then 0 else sum_list (map rowsOf trs) + (int (length trs) - 1))"
    by (rule totalRows_forest)
qed

lemma arrangeForest_ok: "forestOf codeCompare ''p'' (tasks arrangeStore) arrangeForest"
  by (simp add: forestOf_def arrangeForest_def arrangeStore_def titleThenId_def demoTask_def)

lemma deepForest_ok: "forestOf codeCompare ''p'' (tasks deepStore) deepForest"
  by (simp add: forestOf_def deepForest_def deepStore_def titleThenId_def titledTask_def
        demoTask_def)

theorem autoArrange_row_assignment_witness:
  "threeWay codeCompare
   \<and> forestOf codeCompare ''p'' (tasks arrangeStore) arrangeForest
   \<and> (\<exists>cache. arrangeGrid 2 codeCompare ''p'' (tasks arrangeStore) =
                 Some (5, [(''R1'', 0, 1), (''A'', 0, 2), (''B'', 1, 2), (''R2'', 3, 1),
                           (''C'', 3, 2)], cache)
         \<and> map_of cache ''R1'' = Some 2 \<and> map_of cache ''A'' = Some 1
         \<and> map_of cache ''B'' = Some 1 \<and> map_of cache ''R2'' = Some 1
         \<and> map_of cache ''C'' = Some 1)
   \<and> totalRowsOf 5 = 4
   \<and> forestOf codeCompare ''p'' (tasks deepStore) deepForest
   \<and> (\<exists>cache. arrangeGrid 3 codeCompare ''p'' (tasks deepStore) =
                 Some (6, [(''s'', 0, 1), (''r'', 3, 1), (''k1'', 2, 2), (''l2'', 2, 3),
                           (''l1'', 3, 3), (''k2'', 4, 2)], cache)
         \<and> map_of cache ''s'' = Some 1 \<and> map_of cache ''r'' = Some 3
         \<and> map_of cache ''k1'' = Some 2 \<and> map_of cache ''l2'' = Some 1
         \<and> map_of cache ''l1'' = Some 1 \<and> map_of cache ''k2'' = Some 1)
   \<and> totalRowsOf 6 = 5"
proof -
  have d1: "distinct (concat (map idsOf arrangeForest))"
    by (simp add: arrangeForest_def demoTask_def)
  have h1: "\<forall>tr\<in>set arrangeForest. height tr \<le> 2"
    by (simp add: arrangeForest_def)
  have d2: "distinct (concat (map idsOf deepForest))"
    by (simp add: deepForest_def titledTask_def demoTask_def)
  have h2: "\<forall>tr\<in>set deepForest. height tr \<le> 3"
    by (simp add: deepForest_def)
  note a = autoArrange_row_assignment
             [OF threeWay_codeCompare arrangeForest_ok d1 tellsApart_codeCompare h1]
  note b = autoArrange_row_assignment
             [OF threeWay_codeCompare deepForest_ok d2 tellsApart_codeCompare h2]
  have a1: "\<exists>cache. arrangeGrid 2 codeCompare ''p'' (tasks arrangeStore) =
                 Some (5, [(''R1'', 0, 1), (''A'', 0, 2), (''B'', 1, 2), (''R2'', 3, 1),
                           (''C'', 3, 2)], cache)
         \<and> map_of cache ''R1'' = Some 2 \<and> map_of cache ''A'' = Some 1
         \<and> map_of cache ''B'' = Some 1 \<and> map_of cache ''R2'' = Some 1
         \<and> map_of cache ''C'' = Some 1"
    using a [THEN conjunct1] by (simp add: arrangeForest_def demoTask_def)
  have a2: "totalRowsOf 5 = 4"
    using a [THEN conjunct2] by (simp add: arrangeForest_def)
  have b1: "\<exists>cache. arrangeGrid 3 codeCompare ''p'' (tasks deepStore) =
                 Some (6, [(''s'', 0, 1), (''r'', 3, 1), (''k1'', 2, 2), (''l2'', 2, 3),
                           (''l1'', 3, 3), (''k2'', 4, 2)], cache)
         \<and> map_of cache ''s'' = Some 1 \<and> map_of cache ''r'' = Some 3
         \<and> map_of cache ''k1'' = Some 2 \<and> map_of cache ''l2'' = Some 1
         \<and> map_of cache ''l1'' = Some 1 \<and> map_of cache ''k2'' = Some 1"
    using b [THEN conjunct1] by (simp add: deepForest_def titledTask_def demoTask_def)
  have b2: "totalRowsOf 6 = 5"
    using b [THEN conjunct2] by (simp add: deepForest_def)
  show ?thesis
    by (rule conjI [OF threeWay_codeCompare conjI [OF arrangeForest_ok conjI [OF a1
          conjI [OF a2 conjI [OF deepForest_ok conjI [OF b1 b2]]]]]])
qed
end
